theory Spec2Isabelle
  imports Main
begin

section \<open>Syntax trees as an object graph\<close>

text \<open>
  The rule helpers of \<^verbatim>\<open>src/lib/rule-helpers.js\<close> read syntax-tree nodes through
  their fields and compare nodes by identity (\<^verbatim>\<open>node === reachableFunctionThatWeAreIn\<close>).
  A node is therefore a reference into a store; the store gives every reference the
  fields the helpers read. A field that a node does not carry is \<open>None\<close>
  (JavaScript's \<^verbatim>\<open>undefined\<close>/\<^verbatim>\<open>null\<close>); reading a field of an absent node is the
  \<^verbatim>\<open>TypeError\<close> that JavaScript raises.
\<close>

type_synonym ref = nat

record node =
  type :: string
  name :: "string option"
  optional :: "bool option"
  parent :: "ref option"
  object :: "ref option"
  property :: "ref option"
  id' :: "ref option"
  key :: "ref option"

type_synonym ast = "ref \<Rightarrow> node"

datatype error = TypeError

text \<open>
  \<^verbatim>\<open>x.f\<close> for an expression \<open>x\<close> that evaluates to a node or to nothing:
  \<^verbatim>\<open>node.parent.type\<close> is \<open>field h type (field h parent (this n))\<close>.
\<close>

definition this :: "ref \<Rightarrow> error + ref option" where
  "this n = Inr (Some n)"

definition field :: "ast \<Rightarrow> (node \<Rightarrow> 'a) \<Rightarrow> error + ref option \<Rightarrow> error + 'a" where
  "field h f x =
     (case x of Inl e \<Rightarrow> Inl e | Inr None \<Rightarrow> Inl TypeError | Inr (Some r) \<Rightarrow> Inr (f (h r)))"

definition bindE :: "error + 'a \<Rightarrow> ('a \<Rightarrow> error + 'b) \<Rightarrow> error + 'b" where
  "bindE x f = (case x of Inl e \<Rightarrow> Inl e | Inr y \<Rightarrow> f y)"

text \<open>\<^verbatim>\<open>e === v\<close> and \<^verbatim>\<open>e !== v\<close> on a value whose computation may have raised.\<close>

definition eqE :: "error + 'a \<Rightarrow> 'a \<Rightarrow> error + bool" where
  "eqE e v = (case e of Inl x \<Rightarrow> Inl x | Inr y \<Rightarrow> Inr (y = v))"

definition neqE :: "error + 'a \<Rightarrow> 'a \<Rightarrow> error + bool" where
  "neqE e v = (case e of Inl x \<Rightarrow> Inl x | Inr y \<Rightarrow> Inr (y \<noteq> v))"

text \<open>Applying a predicate to a value whose computation may have raised.\<close>

definition testE :: "error + 'a \<Rightarrow> ('a \<Rightarrow> bool) \<Rightarrow> error + bool" where
  "testE e p = (case e of Inl x \<Rightarrow> Inl x | Inr y \<Rightarrow> Inr (p y))"

text \<open>
  A chain \<^verbatim>\<open>c1 && c2 && ... && cn\<close>: evaluated left to right, the first false conjunct
  ends it (what comes after is not evaluated, so cannot raise), the first raise ends it.
\<close>

fun all_of :: "(error + bool) list \<Rightarrow> error + bool" where
  "all_of [] = Inr True"
| "all_of (c # cs) =
     (case c of Inl e \<Rightarrow> Inl e | Inr b \<Rightarrow> if b then all_of cs else Inr False)"

text \<open>\<^verbatim>\<open>a || b\<close> with the same left-to-right evaluation.\<close>

definition orE :: "error + bool \<Rightarrow> error + bool \<Rightarrow> error + bool" where
  "orE a b = (case a of Inl e \<Rightarrow> Inl e | Inr c \<Rightarrow> if c then Inr True else b)"

text \<open>\<^verbatim>\<open>Set.prototype.has\<close> and \<^verbatim>\<open>Array.prototype.includes\<close> on a name that may be
  \<^verbatim>\<open>undefined\<close>; the sets and lists hold strings only.\<close>

definition has :: "string set \<Rightarrow> string option \<Rightarrow> bool" where
  "has S x = (case x of None \<Rightarrow> False | Some s \<Rightarrow> s \<in> S)"

definition includes' :: "string list \<Rightarrow> string option \<Rightarrow> bool" where
  "includes' xs x = (case x of None \<Rightarrow> False | Some s \<Rightarrow> s \<in> set xs)"

text \<open>\<^verbatim>\<open>Array.prototype.at\<close> at a non-negative index.\<close>

definition at :: "'a list \<Rightarrow> nat \<Rightarrow> 'a option" where
  "at xs i = (if i < length xs then Some (xs ! i) else None)"

section \<open>External collaborators\<close>

text \<open>
  \<^verbatim>\<open>analyze\<close>, \<^verbatim>\<open>isSSREscape\<close> and \<^verbatim>\<open>isGlobalIdentifier\<close> are imported from modules
  outside \<^verbatim>\<open>rule-helpers.js\<close>; they are parameters of the model. \<^verbatim>\<open>context\<close> is the
  object the linter passes to a rule: \<^verbatim>\<open>getAncestors()\<close> and \<^verbatim>\<open>getScope()\<close> answer for
  the node being visited.
\<close>

type_synonym scope = nat

record module_info =
  lwcClassDeclaration :: "ref option"
  moduleScopedFunctionsReachableDuringSSR :: "string set"
  methodsReachableDuringSSR :: "string set"

record externals =
  analyze :: "ref \<Rightarrow> module_info"
  isSSREscape :: "ref \<Rightarrow> bool"
  isGlobalIdentifier :: "ref option \<Rightarrow> scope \<Rightarrow> bool"

record "context" =
  getAncestors :: "ref list"
  getScope :: scope

section \<open>The reachability tracker: \<^verbatim>\<open>reachableDuringSSRPartial\<close>\<close>

record tracker =
  moduleInfo :: "module_info option"
  insideLWC :: bool
  reachableFunctionThatWeAreIn :: "ref option"
  reachableMethodThatWeAreIn :: "ref option"
  skippedBlockThatWeAreIn :: "ref option"

definition reachableDuringSSRPartial :: tracker where
  "reachableDuringSSRPartial =
     \<lparr>moduleInfo = None, insideLWC = False, reachableFunctionThatWeAreIn = None,
      reachableMethodThatWeAreIn = None, skippedBlockThatWeAreIn = None\<rparr>"

text \<open>\<^verbatim>\<open>moduleInfo.f\<close>: \<^verbatim>\<open>moduleInfo\<close> is \<^verbatim>\<open>undefined\<close> until \<^verbatim>\<open>Program\<close> has run.\<close>

definition readInfo :: "tracker \<Rightarrow> (module_info \<Rightarrow> 'a) \<Rightarrow> error + 'a" where
  "readInfo st f = (case moduleInfo st of None \<Rightarrow> Inl TypeError | Some mi \<Rightarrow> Inr (f mi))"

text \<open>A handler that changes the state when its condition holds and does nothing otherwise.\<close>

definition doWhen :: "error + bool \<Rightarrow> tracker \<Rightarrow> tracker \<Rightarrow> error + tracker" where
  "doWhen c st' st = (case c of Inl e \<Rightarrow> Inl e | Inr b \<Rightarrow> Inr (if b then st' else st))"

definition Program :: "externals \<Rightarrow> tracker \<Rightarrow> ref \<Rightarrow> error + tracker" where
  "Program ext st n = Inr (st\<lparr>moduleInfo := Some (analyze ext n)\<rparr>)"

definition ClassDeclaration :: "tracker \<Rightarrow> ref \<Rightarrow> error + tracker" where
  "ClassDeclaration st n =
     doWhen (eqE (readInfo st lwcClassDeclaration) (Some n)) (st\<lparr>insideLWC := True\<rparr>) st"

definition ClassDeclaration_exit :: "tracker \<Rightarrow> ref \<Rightarrow> error + tracker" where
  "ClassDeclaration_exit st n =
     doWhen (eqE (readInfo st lwcClassDeclaration) (Some n)) (st\<lparr>insideLWC := False\<rparr>) st"

definition FunctionDeclaration :: "ast \<Rightarrow> tracker \<Rightarrow> ref \<Rightarrow> error + tracker" where
  "FunctionDeclaration h st n =
     doWhen (all_of
        [Inr (reachableFunctionThatWeAreIn st = None),
         testE (field h id' (this n)) (\<lambda>i. i \<noteq> None),
         eqE (field h type (field h id' (this n))) ''Identifier'',
         bindE (readInfo st moduleScopedFunctionsReachableDuringSSR) (\<lambda>S.
           testE (bindE (field h id' (this n))
                    (\<lambda>i. if i \<noteq> None then field h name (Inr i) else Inr None))
             (has S))])
       (st\<lparr>reachableFunctionThatWeAreIn := Some n\<rparr>) st"

definition FunctionDeclaration_exit :: "tracker \<Rightarrow> ref \<Rightarrow> error + tracker" where
  "FunctionDeclaration_exit st n =
     Inr (if Some n = reachableFunctionThatWeAreIn st
          then st\<lparr>reachableFunctionThatWeAreIn := None\<rparr> else st)"

definition FunctionExpression :: "ast \<Rightarrow> tracker \<Rightarrow> ref \<Rightarrow> error + tracker" where
  "FunctionExpression h st n =
     doWhen (all_of
        [Inr (reachableFunctionThatWeAreIn st = None),
         eqE (field h type (field h parent (this n))) ''VariableDeclarator'',
         eqE (field h type (field h id' (field h parent (this n)))) ''Identifier'',
         bindE (readInfo st moduleScopedFunctionsReachableDuringSSR) (\<lambda>S.
           testE (field h name (field h id' (field h parent (this n)))) (has S))])
       (st\<lparr>reachableFunctionThatWeAreIn := Some n\<rparr>) st"

definition FunctionExpression_exit :: "tracker \<Rightarrow> ref \<Rightarrow> error + tracker" where
  "FunctionExpression_exit st n =
     Inr (if Some n = reachableFunctionThatWeAreIn st
          then st\<lparr>reachableFunctionThatWeAreIn := None\<rparr> else st)"

definition ArrowFunctionExpression :: "ast \<Rightarrow> tracker \<Rightarrow> ref \<Rightarrow> error + tracker" where
  "ArrowFunctionExpression h st n =
     doWhen (all_of
        [Inr (reachableFunctionThatWeAreIn st = None),
         eqE (field h type (field h parent (this n))) ''VariableDeclarator'',
         eqE (field h type (field h id' (field h parent (this n)))) ''Identifier'',
         bindE (readInfo st moduleScopedFunctionsReachableDuringSSR) (\<lambda>S.
           testE (field h name (field h id' (field h parent (this n)))) (has S))])
       (st\<lparr>reachableFunctionThatWeAreIn := Some n\<rparr>) st"

definition ArrowFunctionExpression_exit :: "tracker \<Rightarrow> ref \<Rightarrow> error + tracker" where
  "ArrowFunctionExpression_exit st n =
     Inr (if Some n = reachableFunctionThatWeAreIn st
          then st\<lparr>reachableFunctionThatWeAreIn := None\<rparr> else st)"

definition MethodDefinition :: "ast \<Rightarrow> tracker \<Rightarrow> ref \<Rightarrow> error + tracker" where
  "MethodDefinition h st n =
     doWhen (all_of
        [Inr (insideLWC st),
         eqE (field h type (field h key (this n))) ''Identifier'',
         bindE (readInfo st methodsReachableDuringSSR) (\<lambda>S.
           testE (field h name (field h key (this n))) (has S))])
       (st\<lparr>reachableMethodThatWeAreIn := Some n\<rparr>) st"

definition MethodDefinition_exit :: "tracker \<Rightarrow> error + tracker" where
  "MethodDefinition_exit st = Inr (st\<lparr>reachableMethodThatWeAreIn := None\<rparr>)"

definition IfStatement :: "externals \<Rightarrow> tracker \<Rightarrow> ref \<Rightarrow> error + tracker" where
  "IfStatement ext st n =
     Inr (if isSSREscape ext n then st\<lparr>skippedBlockThatWeAreIn := Some n\<rparr> else st)"

definition IfStatement_exit :: "tracker \<Rightarrow> ref \<Rightarrow> error + tracker" where
  "IfStatement_exit st n =
     Inr (if skippedBlockThatWeAreIn st = Some n
          then st\<lparr>skippedBlockThatWeAreIn := None\<rparr> else st)"

text \<open>
  The table \<^verbatim>\<open>withinLWCVisitors\<close>: the handler under the key of the node's type, on
  entering the node and (the \<^verbatim>\<open>:exit\<close> keys) on leaving it. A node whose type has no key
  is not handled.
\<close>

datatype event = Enter ref | Exit ref

fun withinLWCVisitors :: "externals \<Rightarrow> ast \<Rightarrow> event \<Rightarrow> tracker \<Rightarrow> error + tracker" where
  "withinLWCVisitors ext h (Enter n) st =
     (if type (h n) = ''Program'' then Program ext st n
      else if type (h n) = ''ClassDeclaration'' then ClassDeclaration st n
      else if type (h n) = ''FunctionDeclaration'' then FunctionDeclaration h st n
      else if type (h n) = ''FunctionExpression'' then FunctionExpression h st n
      else if type (h n) = ''ArrowFunctionExpression'' then ArrowFunctionExpression h st n
      else if type (h n) = ''MethodDefinition'' then MethodDefinition h st n
      else if type (h n) = ''IfStatement'' then IfStatement ext st n
      else Inr st)"
| "withinLWCVisitors ext h (Exit n) st =
     (if type (h n) = ''ClassDeclaration'' then ClassDeclaration_exit st n
      else if type (h n) = ''FunctionDeclaration'' then FunctionDeclaration_exit st n
      else if type (h n) = ''FunctionExpression'' then FunctionExpression_exit st n
      else if type (h n) = ''ArrowFunctionExpression'' then ArrowFunctionExpression_exit st n
      else if type (h n) = ''MethodDefinition'' then MethodDefinition_exit st
      else if type (h n) = ''IfStatement'' then IfStatement_exit st n
      else Inr st)"

definition isInsideReachableMethod :: "tracker \<Rightarrow> bool" where
  "isInsideReachableMethod st = (insideLWC st \<and> reachableMethodThatWeAreIn st \<noteq> None)"

definition isInsideReachableFunction :: "tracker \<Rightarrow> bool" where
  "isInsideReachableFunction st = (reachableFunctionThatWeAreIn st \<noteq> None)"

definition isInsideSkippedBlock :: "tracker \<Rightarrow> bool" where
  "isInsideSkippedBlock st = (skippedBlockThatWeAreIn st \<noteq> None)"

section \<open>Module scope\<close>

definition moduleScopeDisqualifiers :: "string set" where
  "moduleScopeDisqualifiers =
     {''FunctionDeclaration'', ''FunctionExpression'', ''ArrowFunctionExpression''}"

text \<open>The loop of \<^verbatim>\<open>inModuleScope\<close> over \<^verbatim>\<open>context.getAncestors()\<close>.\<close>

fun noDisqualifier :: "ast \<Rightarrow> ref list \<Rightarrow> bool" where
  "noDisqualifier h [] = True"
| "noDisqualifier h (ancestor # rest) =
     (if type (h ancestor) \<in> moduleScopeDisqualifiers then False else noDisqualifier h rest)"

definition inModuleScope :: "ast \<Rightarrow> ref \<Rightarrow> context \<Rightarrow> bool" where
  "inModuleScope h n ctx = noDisqualifier h (getAncestors ctx)"

section \<open>The rule on forbidden globals: \<^verbatim>\<open>noReferenceDuringSSR\<close>\<close>

text \<open>What \<^verbatim>\<open>context.report\<close> receives; \<open>data\<close> lists the keys of the object literal in
  the order written, each with the value read (a name, or nothing).\<close>

record report =
  messageId :: "string option"
  node :: ref
  data :: "(string \<times> string option) list"

definition noReferenceDuringSSR_MemberExpression ::
  "externals \<Rightarrow> string set \<Rightarrow> string list \<Rightarrow> context \<Rightarrow> ast \<Rightarrow> tracker \<Rightarrow> ref
     \<Rightarrow> error + report list" where
  "noReferenceDuringSSR_MemberExpression ext forbiddenGlobalNames messageIds ctx h st n =
     (if (\<not> isInsideReachableMethod st \<and> \<not> isInsideReachableFunction st
            \<and> \<not> inModuleScope h n ctx)
         \<or> isInsideSkippedBlock st
      then Inr []
      else
        bindE (all_of
          [eqE (field h type (field h parent (this n))) ''MemberExpression'',
           eqE (field h type (field h object (this n))) ''Identifier'',
           eqE (field h name (field h object (this n))) (Some ''globalThis''),
           eqE (field h type (field h property (this n))) ''Identifier'',
           testE (field h name (field h property (this n))) (has forbiddenGlobalNames),
           neqE (field h optional (field h parent (this n))) (Some True),
           testE (field h object (this n)) (\<lambda>ob. isGlobalIdentifier ext ob (getScope ctx))])
        (\<lambda>b. if b then
            bindE (field h name (field h property (this n))) (\<lambda>i.
            bindE (field h name (field h property (field h parent (this n)))) (\<lambda>p.
              Inr [\<lparr>messageId = at messageIds 1, node = n,
                    data = [(''identifier'', i), (''property'', p)]\<rparr>]))
          else
            bindE (all_of
              [neqE (field h type (field h parent (this n))) ''MemberExpression'',
               eqE (field h type (field h object (this n))) ''Identifier'',
               orE (testE (field h name (field h object (this n))) (has forbiddenGlobalNames))
                 (all_of
                   [eqE (field h name (field h object (this n))) (Some ''globalThis''),
                    neqE (field h optional (this n)) (Some True)]),
               testE (field h object (this n)) (\<lambda>ob. isGlobalIdentifier ext ob (getScope ctx))])
            (\<lambda>b. if b then
                bindE (bindE (field h name (field h object (this n))) (\<lambda>on.
                         if on = Some ''globalThis'' then field h name (field h property (this n))
                         else field h name (field h object (this n)))) (\<lambda>i.
                  Inr [\<lparr>messageId = at messageIds 0, node = n, data = [(''identifier'', i)]\<rparr>])
              else Inr [])))"

definition noReferenceDuringSSR_Identifier ::
  "externals \<Rightarrow> string set \<Rightarrow> string list \<Rightarrow> context \<Rightarrow> ast \<Rightarrow> tracker \<Rightarrow> ref
     \<Rightarrow> error + report list" where
  "noReferenceDuringSSR_Identifier ext forbiddenGlobalNames messageIds ctx h st n =
     (if (\<not> isInsideReachableMethod st \<and> \<not> isInsideReachableFunction st
            \<and> \<not> inModuleScope h n ctx)
         \<or> isInsideSkippedBlock st
      then Inr []
      else
        bindE (all_of
          [neqE (field h type (field h parent (this n))) ''MemberExpression'',
           testE (field h name (this n)) (has forbiddenGlobalNames),
           Inr (isGlobalIdentifier ext (Some n) (getScope ctx))])
        (\<lambda>b. if b then
            bindE (field h name (this n)) (\<lambda>i.
              Inr [\<lparr>messageId = at messageIds 0, node = n, data = [(''identifier'', i)]\<rparr>])
          else Inr []))"

text \<open>
  The object the rule returns: the tracker's table extended by the two keys
  \<^verbatim>\<open>MemberExpression\<close> and \<^verbatim>\<open>Identifier\<close> (neither is a key of the tracker's table). The
  state is the tracker's together with the violations reported so far.
\<close>

definition emit :: "tracker \<Rightarrow> 'r list \<Rightarrow> error + 'r list \<Rightarrow> error + tracker \<times> 'r list" where
  "emit st out x = (case x of Inl e \<Rightarrow> Inl e | Inr rs \<Rightarrow> Inr (st, out @ rs))"

definition track :: "'r list \<Rightarrow> error + tracker \<Rightarrow> error + tracker \<times> 'r list" where
  "track out x = (case x of Inl e \<Rightarrow> Inl e | Inr st \<Rightarrow> Inr (st, out))"

fun noReferenceDuringSSR ::
  "externals \<Rightarrow> string set \<Rightarrow> string list \<Rightarrow> ast \<Rightarrow> context \<Rightarrow> event
     \<Rightarrow> tracker \<times> report list \<Rightarrow> error + tracker \<times> report list" where
  "noReferenceDuringSSR ext forbiddenGlobalNames messageIds h ctx (Enter n) (st, out) =
     (if type (h n) = ''MemberExpression''
      then emit st out
             (noReferenceDuringSSR_MemberExpression ext forbiddenGlobalNames messageIds ctx h st n)
      else if type (h n) = ''Identifier''
      then emit st out
             (noReferenceDuringSSR_Identifier ext forbiddenGlobalNames messageIds ctx h st n)
      else track out (withinLWCVisitors ext h (Enter n) st))"
| "noReferenceDuringSSR ext forbiddenGlobalNames messageIds h ctx (Exit n) (st, out) =
     track out (withinLWCVisitors ext h (Exit n) st)"

section \<open>The rule on instance properties: \<^verbatim>\<open>noPropertyAccessDuringSSR\<close>\<close>

text \<open>The rule hands the node to the caller's \<^verbatim>\<open>reporter\<close>; the output is the list of
  nodes handed over.\<close>

definition noPropertyAccessDuringSSR_MemberExpression ::
  "string list \<Rightarrow> ast \<Rightarrow> tracker \<Rightarrow> ref \<Rightarrow> error + ref list" where
  "noPropertyAccessDuringSSR_MemberExpression forbiddenPropertyNames h st n =
     (if \<not> isInsideReachableMethod st \<or> isInsideSkippedBlock st then Inr []
      else
        bindE (all_of
          [eqE (field h type (field h object (this n))) ''ThisExpression'',
           eqE (field h type (field h property (this n))) ''Identifier'',
           testE (field h name (field h property (this n))) (includes' forbiddenPropertyNames)])
        (\<lambda>b. if b then Inr [n] else Inr []))"

fun noPropertyAccessDuringSSR ::
  "externals \<Rightarrow> string list \<Rightarrow> ast \<Rightarrow> context \<Rightarrow> event
     \<Rightarrow> tracker \<times> ref list \<Rightarrow> error + tracker \<times> ref list" where
  "noPropertyAccessDuringSSR ext forbiddenPropertyNames h ctx (Enter n) (st, out) =
     (if type (h n) = ''MemberExpression''
      then emit st out (noPropertyAccessDuringSSR_MemberExpression forbiddenPropertyNames h st n)
      else track out (withinLWCVisitors ext h (Enter n) st))"
| "noPropertyAccessDuringSSR ext forbiddenPropertyNames h ctx (Exit n) (st, out) =
     track out (withinLWCVisitors ext h (Exit n) st)"

section \<open>The rule on the environment variable: \<^verbatim>\<open>noNodeEnvInSSR\<close>\<close>

definition noNodeEnvInSSR_MemberExpression ::
  "context \<Rightarrow> ast \<Rightarrow> tracker \<Rightarrow> ref \<Rightarrow> error + report list" where
  "noNodeEnvInSSR_MemberExpression ctx h st n =
     (if (\<not> isInsideReachableMethod st \<and> \<not> isInsideReachableFunction st
            \<and> \<not> inModuleScope h n ctx)
         \<or> isInsideSkippedBlock st
      then Inr []
      else
        bindE (all_of
          [eqE (field h type (field h property (this n))) ''Identifier'',
           eqE (field h name (field h property (this n))) (Some ''NODE_ENV''),
           eqE (field h type (field h object (this n))) ''MemberExpression'',
           testE (field h object (field h object (this n))) (\<lambda>x. x \<noteq> None),
           eqE (field h type (field h object (field h object (this n)))) ''Identifier'',
           eqE (field h name (field h object (field h object (this n)))) (Some ''process''),
           eqE (field h type (field h property (field h object (this n)))) ''Identifier'',
           eqE (field h name (field h property (field h object (this n)))) (Some ''env'')])
        (\<lambda>b. if b then
            bindE (field h name (field h property (this n))) (\<lambda>i.
              Inr [\<lparr>messageId = Some ''nodeEnvFound'', node = n, data = [(''identifier'', i)]\<rparr>])
          else Inr []))"

fun noNodeEnvInSSR ::
  "externals \<Rightarrow> ast \<Rightarrow> context \<Rightarrow> event
     \<Rightarrow> tracker \<times> report list \<Rightarrow> error + tracker \<times> report list" where
  "noNodeEnvInSSR ext h ctx (Enter n) (st, out) =
     (if type (h n) = ''MemberExpression''
      then emit st out (noNodeEnvInSSR_MemberExpression ctx h st n)
      else track out (withinLWCVisitors ext h (Enter n) st))"
| "noNodeEnvInSSR ext h ctx (Exit n) (st, out) =
     track out (withinLWCVisitors ext h (Exit n) st)"

section \<open>The traversal\<close>

text \<open>
  Modelled from the spec: the traversal driver is the linter's, not this repository's. It
  ``supplies node-enter and matching node-exit invocation for each node kind in document
  order'': a node is entered, its children are traversed in order, the node is left. While
  a node is visited, \<^verbatim>\<open>context.getAncestors()\<close> is the path from the root down to its
  parent, and \<^verbatim>\<open>context.getScope()\<close> is the scope the linter has for it.
\<close>

datatype tree = Tree ref "tree list"

fun traverse :: "tree \<Rightarrow> event list" where
  "traverse (Tree n children) = Enter n # concat (map traverse children) @ [Exit n]"

fun run ::
  "(context \<Rightarrow> event \<Rightarrow> 's \<Rightarrow> error + 's) \<Rightarrow> (ref \<Rightarrow> scope) \<Rightarrow> ref list \<Rightarrow> event list \<Rightarrow> 's
     \<Rightarrow> error + 's" where
  "run listener scopeOf ancestors [] s = Inr s"
| "run listener scopeOf ancestors (Enter n # evs) s =
     (case listener \<lparr>getAncestors = ancestors, getScope = scopeOf n\<rparr> (Enter n) s of
        Inl e \<Rightarrow> Inl e
      | Inr s' \<Rightarrow> run listener scopeOf (ancestors @ [n]) evs s')"
| "run listener scopeOf ancestors (Exit n # evs) s =
     (case listener \<lparr>getAncestors = butlast ancestors, getScope = scopeOf n\<rparr> (Exit n) s of
        Inl e \<Rightarrow> Inl e
      | Inr s' \<Rightarrow> run listener scopeOf (butlast ancestors) evs s')"

text \<open>The listener that consists of the tracker's table alone, and the scopes of a module
  in which every node is in the one global scope.\<close>

definition trackerOnly :: "externals \<Rightarrow> ast \<Rightarrow> context \<Rightarrow> event \<Rightarrow> tracker \<Rightarrow> error + tracker" where
  "trackerOnly ext h ctx ev st = withinLWCVisitors ext h ev st"

definition oneScope :: "ref \<Rightarrow> scope" where
  "oneScope n = 0"

text \<open>The nodes that have been entered and not yet left after a sequence of events.\<close>

fun open_nodes :: "ref set \<Rightarrow> event list \<Rightarrow> ref set" where
  "open_nodes S [] = S"
| "open_nodes S (Enter n # evs) = open_nodes (insert n S) evs"
| "open_nodes S (Exit n # evs) = open_nodes (S - {n}) evs"

section \<open>Notions used to state the properties\<close>

text \<open>The nodes of a tree.\<close>

fun nodes_of :: "tree \<Rightarrow> ref set" where
  "nodes_of (Tree n children) = insert n (\<Union>c \<in> set children. nodes_of c)"

text \<open>
  Containment of the tracker's three slots in a set \<open>S\<close> of nodes: a slot that is set
  holds a node of \<open>S\<close>, of a type whose \<^verbatim>\<open>:exit\<close> handler clears that slot.
\<close>

definition contained :: "ast \<Rightarrow> ref set \<Rightarrow> tracker \<Rightarrow> bool" where
  "contained h S st =
     ((case reachableFunctionThatWeAreIn st of None \<Rightarrow> True
        | Some r \<Rightarrow> r \<in> S \<and> type (h r) \<in> moduleScopeDisqualifiers)
      \<and> (case reachableMethodThatWeAreIn st of None \<Rightarrow> True
        | Some r \<Rightarrow> r \<in> S \<and> type (h r) = ''MethodDefinition'')
      \<and> (case skippedBlockThatWeAreIn st of None \<Rightarrow> True
        | Some r \<Rightarrow> r \<in> S \<and> type (h r) = ''IfStatement''))"


text \<open>
  The name a function is known by: the identifier of a function declaration, and for a
  function or arrow expression the identifier of the variable declarator that is its
  parent. \<open>reachableName\<close>: the name is one of the analyzer's module-scoped functions
  reachable during SSR.
\<close>

definition declaredName :: "ast \<Rightarrow> ref \<Rightarrow> string option" where
  "declaredName h n =
     (case id' (h n) of None \<Rightarrow> None
      | Some i \<Rightarrow> if type (h i) = ''Identifier'' then name (h i) else None)"

definition boundName :: "ast \<Rightarrow> ref \<Rightarrow> string option" where
  "boundName h n =
     (case parent (h n) of None \<Rightarrow> None
      | Some p \<Rightarrow> if type (h p) = ''VariableDeclarator'' then declaredName h p else None)"

definition reachableName :: "tracker \<Rightarrow> string option \<Rightarrow> bool" where
  "reachableName st x =
     (case moduleInfo st of None \<Rightarrow> False
      | Some mi \<Rightarrow> has (moduleScopedFunctionsReachableDuringSSR mi) x)"

text \<open>
  The position of a node in a traversal. \<open>ancestors_at [] pre\<close> is the path from the
  root to the parent of the node that is entered after the events \<open>pre\<close>: the nodes
  entered and not yet left, outermost first, as the driver keeps them. \<open>nested\<close> holds of
  a sequence of events in which every node left is the innermost one entered and no node
  is entered inside itself, as in the traversal of a tree with distinct nodes.
\<close>

fun ancestors_at :: "ref list \<Rightarrow> event list \<Rightarrow> ref list" where
  "ancestors_at anc [] = anc"
| "ancestors_at anc (Enter n # evs) = ancestors_at (anc @ [n]) evs"
| "ancestors_at anc (Exit n # evs) = ancestors_at (butlast anc) evs"

fun nodes_list :: "tree \<Rightarrow> ref list" where
  "nodes_list (Tree n children) = n # concat (map nodes_list children)"

fun nested :: "ref list \<Rightarrow> event list \<Rightarrow> bool" where
  "nested anc [] = True"
| "nested anc (Enter n # evs) = (n \<notin> set anc \<and> nested (anc @ [n]) evs)"
| "nested anc (Exit n # evs) = (anc \<noteq> [] \<and> last anc = n \<and> nested (butlast anc) evs)"

text \<open>
  What makes a position reachable during SSR, read off the tree and the analyzer's result
  for the program \<open>root\<close>: a function whose name (\<open>functionName\<close>) is one of the
  module-scoped functions reachable during SSR; a method definition whose key is an
  identifier naming a method reachable during SSR; the component class among the
  ancestors; a recognized escape guard among the ancestors; an event that leaves a
  method definition.
\<close>

definition functionName :: "ast \<Rightarrow> ref \<Rightarrow> string option" where
  "functionName h n =
     (if type (h n) = ''FunctionDeclaration'' then declaredName h n
      else if type (h n) = ''FunctionExpression'' \<or> type (h n) = ''ArrowFunctionExpression''
      then boundName h n else None)"

definition reachableFunction :: "externals \<Rightarrow> ast \<Rightarrow> ref \<Rightarrow> ref \<Rightarrow> bool" where
  "reachableFunction ext h root f =
     has (moduleScopedFunctionsReachableDuringSSR (analyze ext root)) (functionName h f)"

definition reachableMethod :: "externals \<Rightarrow> ast \<Rightarrow> ref \<Rightarrow> ref \<Rightarrow> bool" where
  "reachableMethod ext h root m =
     (type (h m) = ''MethodDefinition''
      \<and> (case key (h m) of None \<Rightarrow> False
          | Some k \<Rightarrow> type (h k) = ''Identifier''
              \<and> has (methodsReachableDuringSSR (analyze ext root)) (name (h k))))"

definition inComponentClass :: "externals \<Rightarrow> ast \<Rightarrow> ref \<Rightarrow> ref list \<Rightarrow> bool" where
  "inComponentClass ext h root anc =
     (case lwcClassDeclaration (analyze ext root) of None \<Rightarrow> False
      | Some c \<Rightarrow> c \<in> set anc \<and> type (h c) = ''ClassDeclaration'')"

definition insideGuard :: "externals \<Rightarrow> ast \<Rightarrow> ref list \<Rightarrow> bool" where
  "insideGuard ext h anc = list_ex (\<lambda>g. type (h g) = ''IfStatement'' \<and> isSSREscape ext g) anc"

fun leavesMethod :: "ast \<Rightarrow> event \<Rightarrow> bool" where
  "leavesMethod h (Enter n) = False"
| "leavesMethod h (Exit n) = (type (h n) = ''MethodDefinition'')"

text \<open>A rule's listener passes every event to the tracker's table: where it returns, the
  tracker's state is the one the table's handler returns.\<close>

definition follows_tracker ::
  "externals \<Rightarrow> ast \<Rightarrow> (context \<Rightarrow> event \<Rightarrow> tracker \<times> 'r list \<Rightarrow> error + tracker \<times> 'r list)
     \<Rightarrow> bool" where
  "follows_tracker ext h L =
     (\<forall>ctx ev st out st' out'.
        L ctx ev (st, out) = Inr (st', out') \<longrightarrow> withinLWCVisitors ext h ev st = Inr st')"

text \<open>
  A position reachable during SSR. The node entered after the events \<open>pre\<close> is at
  module scope (none of its ancestors is a function), or inside a function with a
  reachable name, or inside a reachable method \<open>m\<close> of the component class, no method
  definition having been left since \<open>m\<close> was entered; \<open>a\<close> and \<open>d\<close> are the events
  before and after the entering of \<open>m\<close>.
\<close>

definition reachablePosition ::
  "externals \<Rightarrow> ast \<Rightarrow> ref \<Rightarrow> event list \<Rightarrow> event list \<Rightarrow> ref \<Rightarrow> event list \<Rightarrow> bool" where
  "reachablePosition ext h root pre a m d =
     (noDisqualifier h (ancestors_at [] pre)
      \<or> list_ex (reachableFunction ext h root) (ancestors_at [] pre)
      \<or> (pre = a @ Enter m # d \<and> reachableMethod ext h root m
          \<and> inComponentClass ext h root (ancestors_at [] a)
          \<and> \<not> list_ex (leavesMethod h) d))"

text \<open>
  What the tracker has recorded when the nodes \<open>anc\<close> are the ones entered and not yet
  left: the analyzer's result for the program; its slots hold nodes of \<open>anc\<close>; the
  skipped block is a recognized guard; inside the component class the flag is set; and
  under a function with a reachable name the function slot holds that function or one
  of its ancestors.
\<close>

definition tracked :: "externals \<Rightarrow> ast \<Rightarrow> ref \<Rightarrow> ref list \<Rightarrow> tracker \<Rightarrow> bool" where
  "tracked ext h root anc st =
     (distinct anc
      \<and> moduleInfo st = Some (analyze ext root)
      \<and> contained h (set anc) st
      \<and> (\<forall>g. skippedBlockThatWeAreIn st = Some g \<longrightarrow> isSSREscape ext g)
      \<and> (inComponentClass ext h root anc \<longrightarrow> insideLWC st)
      \<and> (\<forall>xs f ys. anc = xs @ f # ys \<and> reachableFunction ext h root f \<longrightarrow>
            (\<exists>g. reachableFunctionThatWeAreIn st = Some g \<and> g \<in> set (xs @ [f]))))"

section \<open>Example modules\<close>

text \<open>A node of a given type under a given parent, all other fields absent; a store
  built from the list of its nodes, node \<open>i\<close> at position \<open>i\<close>.\<close>

definition nd :: "string \<Rightarrow> ref option \<Rightarrow> node" where
  "nd t p = \<lparr>type = t, name = None, optional = None, parent = p, object = None,
             property = None, id' = None, key = None\<rparr>"

definition ident :: "string \<Rightarrow> ref option \<Rightarrow> node" where
  "ident x p = (nd ''Identifier'' p)\<lparr>name := Some x\<rparr>"

definition heap_of :: "node list \<Rightarrow> ast" where
  "heap_of ns r = (if r < length ns then ns ! r else nd [] None)"

text \<open>
  \<^verbatim>\<open>function outer() { function inner() {} }\<close>:
  the program 0, the declaration 1 of \<^verbatim>\<open>outer\<close> (name 2, body 3), and in its body the
  declaration 4 of \<^verbatim>\<open>inner\<close> (name 5, body 6).
\<close>

definition fun_heap :: ast where
  "fun_heap = heap_of
     [nd ''Program'' None,
      (nd ''FunctionDeclaration'' (Some 0))\<lparr>id' := Some 2\<rparr>,
      ident ''outer'' (Some 1),
      nd ''BlockStatement'' (Some 1),
      (nd ''FunctionDeclaration'' (Some 3))\<lparr>id' := Some 5\<rparr>,
      ident ''inner'' (Some 4),
      nd ''BlockStatement'' (Some 4)]"

definition fun_tree :: tree where
  "fun_tree = Tree 0 [Tree 1 [Tree 2 [], Tree 3 [Tree 4 [Tree 5 [], Tree 6 []]]]]"

text \<open>Collaborators for which both functions are reachable during SSR, no conditional
  is an escape guard and every identifier is a global.\<close>

definition fun_ext :: externals where
  "fun_ext = \<lparr>analyze = (\<lambda>_. \<lparr>lwcClassDeclaration = None,
        moduleScopedFunctionsReachableDuringSSR = {''outer'', ''inner''},
        methodsReachableDuringSSR = {}\<rparr>),
      isSSREscape = (\<lambda>_. False), isGlobalIdentifier = (\<lambda>_ _. True)\<rparr>"

text \<open>
  A component whose method \<^verbatim>\<open>connectedCallback\<close> holds one statement:
  \<^verbatim>\<open>class C extends LightningElement { connectedCallback() { <statement> } }\<close>.
  The program is node 0, the class declaration 1, its body 2, the method definition 3 with
  key 4 and function expression 5, the function's block 6 and the statement 7; the
  expression of the statement occupies the nodes from 8 on.
\<close>

definition method_heap :: "node list \<Rightarrow> ast" where
  "method_heap expression = heap_of
     ([nd ''Program'' None,
       nd ''ClassDeclaration'' (Some 0),
       nd ''ClassBody'' (Some 1),
       (nd ''MethodDefinition'' (Some 2))\<lparr>key := Some 4\<rparr>,
       ident ''connectedCallback'' (Some 3),
       nd ''FunctionExpression'' (Some 3),
       nd ''BlockStatement'' (Some 5),
       nd ''ExpressionStatement'' (Some 6)] @ expression)"

text \<open>\<^verbatim>\<open>a.b.c\<close>, or \<^verbatim>\<open>a.b?.c\<close> when \<open>opt\<close> is \<open>Some True\<close>: the outer access 8, the
  inner access 9 (\<^verbatim>\<open>a.b\<close>), the identifiers \<^verbatim>\<open>a\<close> 10, \<^verbatim>\<open>b\<close> 11 and \<^verbatim>\<open>c\<close> 12.\<close>

definition chain :: "string \<Rightarrow> string \<Rightarrow> string \<Rightarrow> bool option \<Rightarrow> node list" where
  "chain a b c opt =
     [(nd ''MemberExpression'' (Some 7))\<lparr>object := Some 9, property := Some 12, optional := opt\<rparr>,
      (nd ''MemberExpression'' (Some 8))\<lparr>object := Some 10, property := Some 11\<rparr>,
      ident a (Some 9), ident b (Some 9), ident c (Some 8)]"

text \<open>An access with object \<open>ob\<close> and the property identifier \<^verbatim>\<open>b\<close>: \<^verbatim>\<open>ob.b\<close>,
  \<^verbatim>\<open>ob[b]\<close>, or \<^verbatim>\<open>ob?.b\<close> when \<open>opt\<close> is \<open>Some True\<close>: the access 8, its object 9, its
  property 10.\<close>

definition access :: "(ref option \<Rightarrow> node) \<Rightarrow> string \<Rightarrow> bool option \<Rightarrow> node list" where
  "access ob b opt =
     [(nd ''MemberExpression'' (Some 7))\<lparr>object := Some 9, property := Some 10, optional := opt\<rparr>,
      ob (Some 8), ident b (Some 8)]"

text \<open>\<^verbatim>\<open>f(x)\<close>: the call 8, the callee 9 and the argument 10.\<close>

definition call :: "string \<Rightarrow> string \<Rightarrow> node list" where
  "call f x = [nd ''CallExpression'' (Some 7), ident f (Some 8), ident x (Some 8)]"

text \<open>Collaborators for that component: the class 1 is the component, its method
  \<^verbatim>\<open>connectedCallback\<close> is reachable during SSR, no conditional is an escape guard, and
  every identifier resolves to a global, or none does.\<close>

definition method_ext :: "bool \<Rightarrow> externals" where
  "method_ext global = \<lparr>analyze = (\<lambda>_. \<lparr>lwcClassDeclaration = Some 1,
        moduleScopedFunctionsReachableDuringSSR = {},
        methodsReachableDuringSSR = {''connectedCallback''}\<rparr>),
      isSSREscape = (\<lambda>_. False), isGlobalIdentifier = (\<lambda>_ _. global)\<rparr>"

text \<open>The tracker inside the method, where the traversal of the component has brought
  it when the statement is reached; and the context of a node directly under the
  statement.\<close>

definition inMethod :: tracker where
  "inMethod = \<lparr>moduleInfo = Some \<lparr>lwcClassDeclaration = Some 1,
        moduleScopedFunctionsReachableDuringSSR = {},
        methodsReachableDuringSSR = {''connectedCallback''}\<rparr>,
      insideLWC = True, reachableFunctionThatWeAreIn = None,
      reachableMethodThatWeAreIn = Some 3, skippedBlockThatWeAreIn = None\<rparr>"

definition atStatement :: "context" where
  "atStatement = \<lparr>getAncestors = [0, 1, 2, 3, 5, 6, 7], getScope = 0\<rparr>"

definition method_tree :: "tree list \<Rightarrow> tree" where
  "method_tree expression =
     Tree 0 [Tree 1 [Tree 2 [Tree 3 [Tree 4 [], Tree 5 [Tree 6 [Tree 7 expression]]]]]]"

text \<open>
  Two nested escape guards at module level:
  \<^verbatim>\<open>if (typeof window !== 'undefined') { if (typeof document !== 'undefined') {} window; }\<close>.
  The outer conditional is node 1 (test 2 to 5, block 6), the inner conditional is node 7
  (test 8 to 11, block 12), the statement after it is 13 and its identifier
  \<^verbatim>\<open>window\<close> is 14.
\<close>

definition guard_heap :: ast where
  "guard_heap = heap_of
     [nd ''Program'' None,
      nd ''IfStatement'' (Some 0),
      nd ''BinaryExpression'' (Some 1),
      nd ''UnaryExpression'' (Some 2),
      ident ''window'' (Some 3),
      nd ''Literal'' (Some 2),
      nd ''BlockStatement'' (Some 1),
      nd ''IfStatement'' (Some 6),
      nd ''BinaryExpression'' (Some 7),
      nd ''UnaryExpression'' (Some 8),
      ident ''document'' (Some 9),
      nd ''Literal'' (Some 8),
      nd ''BlockStatement'' (Some 7),
      nd ''ExpressionStatement'' (Some 6),
      ident ''window'' (Some 13)]"

definition guard_tree :: tree where
  "guard_tree =
     Tree 0 [Tree 1 [Tree 2 [Tree 3 [Tree 4 []], Tree 5 []],
                     Tree 6 [Tree 7 [Tree 8 [Tree 9 [Tree 10 []], Tree 11 []], Tree 12 []],
                             Tree 13 [Tree 14 []]]]]"

definition guard_ext :: externals where
  "guard_ext = \<lparr>analyze = (\<lambda>_. \<lparr>lwcClassDeclaration = None,
        moduleScopedFunctionsReachableDuringSSR = {}, methodsReachableDuringSSR = {}\<rparr>),
      isSSREscape = (\<lambda>n. n = 1 \<or> n = 7), isGlobalIdentifier = (\<lambda>_ _. True)\<rparr>"

text \<open>
  The component with a class nested in its method, before the statement:
  \<^verbatim>\<open>class C extends LightningElement { connectedCallback() { class Inner { helper() {} } <statement> } }\<close>.
  The nested class declaration is node 20 (name 21, body 22), its method definition is
  node 23 (key 24, function expression 25, block 26); the statement and its expression
  are the nodes 7 and 8 on, as before.
\<close>

definition nested_class_heap :: "node list \<Rightarrow> ast" where
  "nested_class_heap expression = (method_heap expression)
     (20 := (nd ''ClassDeclaration'' (Some 6))\<lparr>id' := Some 21\<rparr>,
      21 := ident ''Inner'' (Some 20),
      22 := nd ''ClassBody'' (Some 20),
      23 := (nd ''MethodDefinition'' (Some 22))\<lparr>key := Some 24\<rparr>,
      24 := ident ''helper'' (Some 23),
      25 := nd ''FunctionExpression'' (Some 23),
      26 := nd ''BlockStatement'' (Some 25))"

definition nested_class_tree :: "tree list \<Rightarrow> tree" where
  "nested_class_tree expression =
     Tree 0 [Tree 1 [Tree 2 [Tree 3 [Tree 4 [], Tree 5 [Tree 6
       [Tree 20 [Tree 21 [], Tree 22 [Tree 23 [Tree 24 [], Tree 25 [Tree 26 []]]]],
        Tree 7 expression]]]]]]"

text \<open>
  The component whose method holds two nested escape guards around the statement:
  \<^verbatim>\<open>connectedCallback() { if (typeof window !== 'undefined') { if (typeof document !== 'undefined') {} <statement> } }\<close>.
  The outer conditional is node 30 (test 34 to 37, block 31), the inner conditional is
  node 32 (test 38 to 41, block 33); the statement 7 follows the inner conditional in the
  block 31.
\<close>

definition guarded_method_heap :: "node list \<Rightarrow> ast" where
  "guarded_method_heap expression = (method_heap expression)
     (7 := nd ''ExpressionStatement'' (Some 31),
      30 := nd ''IfStatement'' (Some 6),
      31 := nd ''BlockStatement'' (Some 30),
      32 := nd ''IfStatement'' (Some 31),
      33 := nd ''BlockStatement'' (Some 32),
      34 := nd ''BinaryExpression'' (Some 30),
      35 := nd ''UnaryExpression'' (Some 34),
      36 := ident ''window'' (Some 35),
      37 := nd ''Literal'' (Some 34),
      38 := nd ''BinaryExpression'' (Some 32),
      39 := nd ''UnaryExpression'' (Some 38),
      40 := ident ''document'' (Some 39),
      41 := nd ''Literal'' (Some 38))"

definition guarded_method_tree :: "tree list \<Rightarrow> tree" where
  "guarded_method_tree expression =
     Tree 0 [Tree 1 [Tree 2 [Tree 3 [Tree 4 [], Tree 5 [Tree 6
       [Tree 30 [Tree 34 [Tree 35 [Tree 36 []], Tree 37 []],
                 Tree 31 [Tree 32 [Tree 38 [Tree 39 [Tree 40 []], Tree 41 []], Tree 33 []],
                          Tree 7 expression]]]]]]]]"

definition guarded_method_ext :: externals where
  "guarded_method_ext = (method_ext True)\<lparr>isSSREscape := (\<lambda>n. n = 30 \<or> n = 32)\<rparr>"

text \<open>
  The fields that the syntax-tree format makes mandatory, as far as the helpers read
  them: a member access has a parent, an object and a property; an identifier, a function
  expression and an arrow function have a parent; a variable declarator has an
  identifier or pattern; a method definition has a key.
\<close>

definition shape_ok :: "node \<Rightarrow> bool" where
  "shape_ok x =
     ((type x = ''MemberExpression'' \<longrightarrow> parent x \<noteq> None \<and> object x \<noteq> None \<and> property x \<noteq> None)
      \<and> (type x = ''Identifier'' \<longrightarrow> parent x \<noteq> None)
      \<and> (type x = ''FunctionExpression'' \<longrightarrow> parent x \<noteq> None)
      \<and> (type x = ''ArrowFunctionExpression'' \<longrightarrow> parent x \<noteq> None)
      \<and> (type x = ''VariableDeclarator'' \<longrightarrow> id' x \<noteq> None)
      \<and> (type x = ''MethodDefinition'' \<longrightarrow> key x \<noteq> None))"

definition estree_ok :: "ast \<Rightarrow> bool" where
  "estree_ok h = (\<forall>r. shape_ok (h r))"

section \<open>Handlers: what each one changes\<close>

lemmas js = this_def field_def bindE_def eqE_def neqE_def testE_def orE_def has_def
  includes'_def readInfo_def

lemma doWhen_cases:
  "doWhen c st' st = Inr s \<Longrightarrow> s = st \<or> s = st'"
  by (auto simp: doWhen_def split: sum.splits if_splits)

lemma Program_slots:
  "Program ext st n = Inr s \<Longrightarrow> \<exists>mi. s = st\<lparr>moduleInfo := mi\<rparr>"
  by (auto simp: Program_def)

lemma ClassDeclaration_slots:
  "ClassDeclaration st n = Inr s \<Longrightarrow> \<exists>b. s = st\<lparr>insideLWC := b\<rparr>"
  unfolding ClassDeclaration_def
  by (drule doWhen_cases) (auto intro: exI[of _ "insideLWC st"])

lemma ClassDeclaration_exit_slots:
  "ClassDeclaration_exit st n = Inr s \<Longrightarrow> \<exists>b. s = st\<lparr>insideLWC := b\<rparr>"
  unfolding ClassDeclaration_exit_def
  by (drule doWhen_cases) (auto intro: exI[of _ "insideLWC st"])

lemma FunctionDeclaration_slots:
  "FunctionDeclaration h st n = Inr s \<Longrightarrow> s = st \<or> s = st\<lparr>reachableFunctionThatWeAreIn := Some n\<rparr>"
  unfolding FunctionDeclaration_def by (drule doWhen_cases) auto

lemma FunctionExpression_slots:
  "FunctionExpression h st n = Inr s \<Longrightarrow> s = st \<or> s = st\<lparr>reachableFunctionThatWeAreIn := Some n\<rparr>"
  unfolding FunctionExpression_def by (drule doWhen_cases) auto

lemma ArrowFunctionExpression_slots:
  "ArrowFunctionExpression h st n = Inr s \<Longrightarrow> s = st \<or> s = st\<lparr>reachableFunctionThatWeAreIn := Some n\<rparr>"
  unfolding ArrowFunctionExpression_def by (drule doWhen_cases) auto

lemma MethodDefinition_slots:
  "MethodDefinition h st n = Inr s \<Longrightarrow> s = st \<or> s = st\<lparr>reachableMethodThatWeAreIn := Some n\<rparr>"
  unfolding MethodDefinition_def by (drule doWhen_cases) auto

lemma IfStatement_slots:
  "IfStatement ext st n = Inr s \<Longrightarrow> s = st \<or> s = st\<lparr>skippedBlockThatWeAreIn := Some n\<rparr>"
  by (auto simp: IfStatement_def)


lemma FunctionDeclaration_exit_slots:
  "FunctionDeclaration_exit st n = Inr s \<Longrightarrow>
     (reachableFunctionThatWeAreIn st = Some n \<and> s = st\<lparr>reachableFunctionThatWeAreIn := None\<rparr>)
     \<or> (reachableFunctionThatWeAreIn st \<noteq> Some n \<and> s = st)"
  by (auto simp: FunctionDeclaration_exit_def split: if_splits)

lemma FunctionExpression_exit_slots:
  "FunctionExpression_exit st n = Inr s \<Longrightarrow>
     (reachableFunctionThatWeAreIn st = Some n \<and> s = st\<lparr>reachableFunctionThatWeAreIn := None\<rparr>)
     \<or> (reachableFunctionThatWeAreIn st \<noteq> Some n \<and> s = st)"
  by (auto simp: FunctionExpression_exit_def split: if_splits)

lemma ArrowFunctionExpression_exit_slots:
  "ArrowFunctionExpression_exit st n = Inr s \<Longrightarrow>
     (reachableFunctionThatWeAreIn st = Some n \<and> s = st\<lparr>reachableFunctionThatWeAreIn := None\<rparr>)
     \<or> (reachableFunctionThatWeAreIn st \<noteq> Some n \<and> s = st)"
  by (auto simp: ArrowFunctionExpression_exit_def split: if_splits)

lemma MethodDefinition_exit_slots:
  "MethodDefinition_exit st = Inr s \<Longrightarrow> s = st\<lparr>reachableMethodThatWeAreIn := None\<rparr>"
  by (auto simp: MethodDefinition_exit_def)

lemma IfStatement_exit_slots:
  "IfStatement_exit st n = Inr s \<Longrightarrow>
     (skippedBlockThatWeAreIn st = Some n \<and> s = st\<lparr>skippedBlockThatWeAreIn := None\<rparr>)
     \<or> (skippedBlockThatWeAreIn st \<noteq> Some n \<and> s = st)"
  by (auto simp: IfStatement_exit_def split: if_splits)

lemma contained_insert: "contained h S st \<Longrightarrow> contained h (insert n S) st"
  by (auto simp: contained_def split: option.splits)



lemma enter_dispatch:
  obtains (Program) "type (h n) = ''Program''"
      "withinLWCVisitors ext h (Enter n) st = Program ext st n"
  | (ClassDeclaration) "type (h n) = ''ClassDeclaration''"
      "withinLWCVisitors ext h (Enter n) st = ClassDeclaration st n"
  | (FunctionDeclaration) "type (h n) = ''FunctionDeclaration''"
      "withinLWCVisitors ext h (Enter n) st = FunctionDeclaration h st n"
  | (FunctionExpression) "type (h n) = ''FunctionExpression''"
      "withinLWCVisitors ext h (Enter n) st = FunctionExpression h st n"
  | (ArrowFunctionExpression) "type (h n) = ''ArrowFunctionExpression''"
      "withinLWCVisitors ext h (Enter n) st = ArrowFunctionExpression h st n"
  | (MethodDefinition) "type (h n) = ''MethodDefinition''"
      "withinLWCVisitors ext h (Enter n) st = MethodDefinition h st n"
  | (IfStatement) "type (h n) = ''IfStatement''"
      "withinLWCVisitors ext h (Enter n) st = IfStatement ext st n"
  | (Other) "withinLWCVisitors ext h (Enter n) st = Inr st"
proof -
  let ?t = "type (h n)"
  consider "?t = ''Program''"
    | "?t \<noteq> ''Program''" "?t = ''ClassDeclaration''"
    | "?t \<noteq> ''Program''" "?t \<noteq> ''ClassDeclaration''" "?t = ''FunctionDeclaration''"
    | "?t \<noteq> ''Program''" "?t \<noteq> ''ClassDeclaration''" "?t \<noteq> ''FunctionDeclaration''"
      "?t = ''FunctionExpression''"
    | "?t \<noteq> ''Program''" "?t \<noteq> ''ClassDeclaration''" "?t \<noteq> ''FunctionDeclaration''"
      "?t \<noteq> ''FunctionExpression''" "?t = ''ArrowFunctionExpression''"
    | "?t \<noteq> ''Program''" "?t \<noteq> ''ClassDeclaration''" "?t \<noteq> ''FunctionDeclaration''"
      "?t \<noteq> ''FunctionExpression''" "?t \<noteq> ''ArrowFunctionExpression''"
      "?t = ''MethodDefinition''"
    | "?t \<noteq> ''Program''" "?t \<noteq> ''ClassDeclaration''" "?t \<noteq> ''FunctionDeclaration''"
      "?t \<noteq> ''FunctionExpression''" "?t \<noteq> ''ArrowFunctionExpression''"
      "?t \<noteq> ''MethodDefinition''" "?t = ''IfStatement''"
    | "?t \<noteq> ''Program''" "?t \<noteq> ''ClassDeclaration''" "?t \<noteq> ''FunctionDeclaration''"
      "?t \<noteq> ''FunctionExpression''" "?t \<noteq> ''ArrowFunctionExpression''"
      "?t \<noteq> ''MethodDefinition''" "?t \<noteq> ''IfStatement''"
    by blast
  then show thesis
  proof cases
    case 1 then show ?thesis using Program by simp
  next
    case 2 then show ?thesis using ClassDeclaration by simp
  next
    case 3 then show ?thesis using FunctionDeclaration by simp
  next
    case 4 then show ?thesis using FunctionExpression by simp
  next
    case 5 then show ?thesis using ArrowFunctionExpression by simp
  next
    case 6 then show ?thesis using MethodDefinition by simp
  next
    case 7 then show ?thesis using IfStatement by simp
  next
    case 8 then show ?thesis using Other by simp
  qed
qed

lemma exit_dispatch:
  obtains (ClassDeclaration) "type (h n) = ''ClassDeclaration''"
      "withinLWCVisitors ext h (Exit n) st = ClassDeclaration_exit st n"
  | (FunctionDeclaration) "type (h n) = ''FunctionDeclaration''"
      "withinLWCVisitors ext h (Exit n) st = FunctionDeclaration_exit st n"
  | (FunctionExpression) "type (h n) = ''FunctionExpression''"
      "withinLWCVisitors ext h (Exit n) st = FunctionExpression_exit st n"
  | (ArrowFunctionExpression) "type (h n) = ''ArrowFunctionExpression''"
      "withinLWCVisitors ext h (Exit n) st = ArrowFunctionExpression_exit st n"
  | (MethodDefinition) "type (h n) = ''MethodDefinition''"
      "withinLWCVisitors ext h (Exit n) st = MethodDefinition_exit st"
  | (IfStatement) "type (h n) = ''IfStatement''"
      "withinLWCVisitors ext h (Exit n) st = IfStatement_exit st n"
  | (Other) "type (h n) \<notin> moduleScopeDisqualifiers" "type (h n) \<noteq> ''MethodDefinition''"
      "type (h n) \<noteq> ''IfStatement''" "withinLWCVisitors ext h (Exit n) st = Inr st"
proof -
  let ?t = "type (h n)"
  consider "?t = ''ClassDeclaration''"
    | "?t \<noteq> ''ClassDeclaration''" "?t = ''FunctionDeclaration''"
    | "?t \<noteq> ''ClassDeclaration''" "?t \<noteq> ''FunctionDeclaration''"
      "?t = ''FunctionExpression''"
    | "?t \<noteq> ''ClassDeclaration''" "?t \<noteq> ''FunctionDeclaration''"
      "?t \<noteq> ''FunctionExpression''" "?t = ''ArrowFunctionExpression''"
    | "?t \<noteq> ''ClassDeclaration''" "?t \<noteq> ''FunctionDeclaration''"
      "?t \<noteq> ''FunctionExpression''" "?t \<noteq> ''ArrowFunctionExpression''"
      "?t = ''MethodDefinition''"
    | "?t \<noteq> ''ClassDeclaration''" "?t \<noteq> ''FunctionDeclaration''"
      "?t \<noteq> ''FunctionExpression''" "?t \<noteq> ''ArrowFunctionExpression''"
      "?t \<noteq> ''MethodDefinition''" "?t = ''IfStatement''"
    | "?t \<noteq> ''ClassDeclaration''" "?t \<noteq> ''FunctionDeclaration''"
      "?t \<noteq> ''FunctionExpression''" "?t \<noteq> ''ArrowFunctionExpression''"
      "?t \<noteq> ''MethodDefinition''" "?t \<noteq> ''IfStatement''"
    by blast
  then show thesis
  proof cases
    case 1 then show ?thesis using ClassDeclaration by simp
  next
    case 2 then show ?thesis using FunctionDeclaration by simp
  next
    case 3 then show ?thesis using FunctionExpression by simp
  next
    case 4 then show ?thesis using ArrowFunctionExpression by simp
  next
    case 5 then show ?thesis using MethodDefinition by simp
  next
    case 6 then show ?thesis using IfStatement by simp
  next
    case 7 then show ?thesis using Other by (simp add: moduleScopeDisqualifiers_def)
  qed
qed


declare withinLWCVisitors.simps [simp del]

lemma disqualifier_types:
  "''FunctionDeclaration'' \<in> moduleScopeDisqualifiers"
  "''FunctionExpression'' \<in> moduleScopeDisqualifiers"
  "''ArrowFunctionExpression'' \<in> moduleScopeDisqualifiers"
  "''MethodDefinition'' \<notin> moduleScopeDisqualifiers"
  "''IfStatement'' \<notin> moduleScopeDisqualifiers"
  "''ClassDeclaration'' \<notin> moduleScopeDisqualifiers"
  by (simp_all add: moduleScopeDisqualifiers_def)

lemma containedD:
  assumes "contained h S st"
  shows "reachableFunctionThatWeAreIn st = Some r
            \<Longrightarrow> r \<in> S \<and> type (h r) \<in> moduleScopeDisqualifiers"
    and "reachableMethodThatWeAreIn st = Some r \<Longrightarrow> r \<in> S \<and> type (h r) = ''MethodDefinition''"
    and "skippedBlockThatWeAreIn st = Some r \<Longrightarrow> r \<in> S \<and> type (h r) = ''IfStatement''"
  using assms unfolding contained_def by (simp_all split: option.splits)

lemma contained_moduleInfo: "contained h S (st\<lparr>moduleInfo := mi\<rparr>) = contained h S st"
  by (simp add: contained_def)

lemma contained_insideLWC: "contained h S (st\<lparr>insideLWC := b\<rparr>) = contained h S st"
  by (simp add: contained_def)

lemma contained_set_function:
  "contained h S st \<Longrightarrow> n \<in> S \<Longrightarrow> type (h n) \<in> moduleScopeDisqualifiers
     \<Longrightarrow> contained h S (st\<lparr>reachableFunctionThatWeAreIn := Some n\<rparr>)"
  by (simp add: contained_def)

lemma contained_set_method:
  "contained h S st \<Longrightarrow> n \<in> S \<Longrightarrow> type (h n) = ''MethodDefinition''
     \<Longrightarrow> contained h S (st\<lparr>reachableMethodThatWeAreIn := Some n\<rparr>)"
  by (simp add: contained_def)

lemma contained_set_block:
  "contained h S st \<Longrightarrow> n \<in> S \<Longrightarrow> type (h n) = ''IfStatement''
     \<Longrightarrow> contained h S (st\<lparr>skippedBlockThatWeAreIn := Some n\<rparr>)"
  by (simp add: contained_def)

lemma enter_contained:
  assumes "withinLWCVisitors ext h (Enter n) st = Inr st'" and "contained h S st"
  shows "contained h (insert n S) st'"
proof -
  note c = contained_insert[OF assms(2), of n]
  show ?thesis
  proof (cases rule: enter_dispatch[of h n ext st])
    case Program
    with assms(1) have "Program ext st n = Inr st'" by simp
    from Program_slots[OF this] c show ?thesis by (auto simp: contained_moduleInfo)
  next
    case ClassDeclaration
    with assms(1) have "ClassDeclaration st n = Inr st'" by simp
    from ClassDeclaration_slots[OF this] c show ?thesis by (auto simp: contained_insideLWC)
  next
    case FunctionDeclaration
    with assms(1) have "FunctionDeclaration h st n = Inr st'" by simp
    from FunctionDeclaration_slots[OF this] c FunctionDeclaration(1) show ?thesis
      by (auto intro!: contained_set_function simp: disqualifier_types)
  next
    case FunctionExpression
    with assms(1) have "FunctionExpression h st n = Inr st'" by simp
    from FunctionExpression_slots[OF this] c FunctionExpression(1) show ?thesis
      by (auto intro!: contained_set_function simp: disqualifier_types)
  next
    case ArrowFunctionExpression
    with assms(1) have "ArrowFunctionExpression h st n = Inr st'" by simp
    from ArrowFunctionExpression_slots[OF this] c ArrowFunctionExpression(1) show ?thesis
      by (auto intro!: contained_set_function simp: disqualifier_types)
  next
    case MethodDefinition
    with assms(1) have "MethodDefinition h st n = Inr st'" by simp
    from MethodDefinition_slots[OF this] c MethodDefinition(1) show ?thesis
      by (auto intro!: contained_set_method)
  next
    case IfStatement
    with assms(1) have "IfStatement ext st n = Inr st'" by simp
    from IfStatement_slots[OF this] c IfStatement(1) show ?thesis
      by (auto intro!: contained_set_block)
  next
    case Other
    with assms(1) c show ?thesis by simp
  qed
qed


lemma contained_clear_function:
  "contained h S st \<Longrightarrow> reachableMethodThatWeAreIn st \<noteq> Some n
     \<Longrightarrow> skippedBlockThatWeAreIn st \<noteq> Some n
     \<Longrightarrow> contained h (S - {n}) (st\<lparr>reachableFunctionThatWeAreIn := None\<rparr>)"
  by (auto simp: contained_def split: option.splits)

lemma contained_clear_method:
  "contained h S st \<Longrightarrow> reachableFunctionThatWeAreIn st \<noteq> Some n
     \<Longrightarrow> skippedBlockThatWeAreIn st \<noteq> Some n
     \<Longrightarrow> contained h (S - {n}) (st\<lparr>reachableMethodThatWeAreIn := None\<rparr>)"
  by (auto simp: contained_def split: option.splits)

lemma contained_clear_block:
  "contained h S st \<Longrightarrow> reachableFunctionThatWeAreIn st \<noteq> Some n
     \<Longrightarrow> reachableMethodThatWeAreIn st \<noteq> Some n
     \<Longrightarrow> contained h (S - {n}) (st\<lparr>skippedBlockThatWeAreIn := None\<rparr>)"
  by (auto simp: contained_def split: option.splits)

lemma contained_exit_other:
  "contained h S st \<Longrightarrow> reachableFunctionThatWeAreIn st \<noteq> Some n
     \<Longrightarrow> reachableMethodThatWeAreIn st \<noteq> Some n
     \<Longrightarrow> skippedBlockThatWeAreIn st \<noteq> Some n
     \<Longrightarrow> contained h (S - {n}) st"
  by (auto simp: contained_def split: option.splits)

lemma exit_contained:
  assumes "withinLWCVisitors ext h (Exit n) st = Inr st'" and "contained h S st"
  shows "contained h (S - {n}) st'"
proof -
  note d = containedD[OF assms(2), of n]
  show ?thesis
  proof (cases rule: exit_dispatch[of h n ext st])
    case ClassDeclaration
    with d have "contained h (S - {n}) st"
      by (intro contained_exit_other[OF assms(2)]) (auto simp: disqualifier_types)
    moreover from ClassDeclaration assms(1) have "ClassDeclaration_exit st n = Inr st'" by simp
    from ClassDeclaration_exit_slots[OF this] obtain b where "st' = st\<lparr>insideLWC := b\<rparr>" ..
    ultimately show ?thesis by (simp add: contained_insideLWC)
  next
    case FunctionDeclaration
    with d have o: "reachableMethodThatWeAreIn st \<noteq> Some n" "skippedBlockThatWeAreIn st \<noteq> Some n"
      by (auto simp: disqualifier_types)
    from FunctionDeclaration assms(1) have "FunctionDeclaration_exit st n = Inr st'" by simp
    from FunctionDeclaration_exit_slots[OF this] show ?thesis
      using contained_clear_function[OF assms(2) o] contained_exit_other[OF assms(2) _ o]
      by auto
  next
    case FunctionExpression
    with d have o: "reachableMethodThatWeAreIn st \<noteq> Some n" "skippedBlockThatWeAreIn st \<noteq> Some n"
      by (auto simp: disqualifier_types)
    from FunctionExpression assms(1) have "FunctionExpression_exit st n = Inr st'" by simp
    from FunctionExpression_exit_slots[OF this] show ?thesis
      using contained_clear_function[OF assms(2) o] contained_exit_other[OF assms(2) _ o]
      by auto
  next
    case ArrowFunctionExpression
    with d have o: "reachableMethodThatWeAreIn st \<noteq> Some n" "skippedBlockThatWeAreIn st \<noteq> Some n"
      by (auto simp: disqualifier_types)
    from ArrowFunctionExpression assms(1) have "ArrowFunctionExpression_exit st n = Inr st'" by simp
    from ArrowFunctionExpression_exit_slots[OF this] show ?thesis
      using contained_clear_function[OF assms(2) o] contained_exit_other[OF assms(2) _ o]
      by auto
  next
    case MethodDefinition
    with d have o: "reachableFunctionThatWeAreIn st \<noteq> Some n" "skippedBlockThatWeAreIn st \<noteq> Some n"
      by (auto simp: disqualifier_types)
    from MethodDefinition assms(1) have "MethodDefinition_exit st = Inr st'" by simp
    from MethodDefinition_exit_slots[OF this] show ?thesis
      using contained_clear_method[OF assms(2) o] by simp
  next
    case IfStatement
    with d have o: "reachableFunctionThatWeAreIn st \<noteq> Some n" "reachableMethodThatWeAreIn st \<noteq> Some n"
      by (auto simp: disqualifier_types)
    from IfStatement assms(1) have "IfStatement_exit st n = Inr st'" by simp
    from IfStatement_exit_slots[OF this] show ?thesis
      using contained_clear_block[OF assms(2) o] contained_exit_other[OF assms(2) o]
      by auto
  next
    case Other
    with d have "contained h (S - {n}) st"
      by (intro contained_exit_other[OF assms(2)]) auto
    with Other assms(1) show ?thesis by simp
  qed
qed

lemma run_contained:
  "run (\<lambda>ctx. withinLWCVisitors ext h) sc anc evs st = Inr st' \<Longrightarrow> contained h S st
     \<Longrightarrow> contained h (open_nodes S evs) st'"
proof (induction evs arbitrary: anc st S)
  case Nil
  then show ?case by simp
next
  case (Cons ev evs)
  show ?case
  proof (cases ev)
    case (Enter n)
    with Cons.prems obtain s1 where
      s1: "withinLWCVisitors ext h (Enter n) st = Inr s1"
      and r: "run (\<lambda>ctx. withinLWCVisitors ext h) sc (anc @ [n]) evs s1 = Inr st'"
      by (auto split: sum.splits)
    from enter_contained[OF s1 Cons.prems(2)] Cons.IH[OF r] Enter show ?thesis by simp
  next
    case (Exit n)
    with Cons.prems obtain s1 where
      s1: "withinLWCVisitors ext h (Exit n) st = Inr s1"
      and r: "run (\<lambda>ctx. withinLWCVisitors ext h) sc (butlast anc) evs s1 = Inr st'"
      by (auto split: sum.splits)
    from exit_contained[OF s1 Cons.prems(2)] Cons.IH[OF r] Exit show ?thesis by simp
  qed
qed

lemma trackerOnly_eq: "trackerOnly ext h = (\<lambda>ctx. withinLWCVisitors ext h)"
  by (intro ext) (simp add: trackerOnly_def)

lemma open_nodes_append: "open_nodes S (xs @ ys) = open_nodes (open_nodes S xs) ys"
  by (induction S xs rule: open_nodes.induct) simp_all

lemma open_nodes_children:
  assumes "\<And>c S. c \<in> set ts \<Longrightarrow> open_nodes S (traverse c) = S - nodes_of c"
  shows "open_nodes S (concat (map traverse ts)) = S - (\<Union>c \<in> set ts. nodes_of c)"
  using assms
proof (induction ts arbitrary: S)
  case Nil
  then show ?case by simp
next
  case (Cons t ts)
  have "open_nodes S (concat (map traverse (t # ts)))
      = open_nodes (S - nodes_of t) (concat (map traverse ts))"
    by (simp add: open_nodes_append Cons.prems)
  also have "\<dots> = S - nodes_of t - (\<Union>c \<in> set ts. nodes_of c)"
    by (rule Cons.IH) (simp add: Cons.prems)
  finally show ?case by auto
qed

lemma open_nodes_traverse: "open_nodes S (traverse t) = S - nodes_of t"
proof (induction t arbitrary: S)
  case (Tree n ts)
  have "open_nodes S (traverse (Tree n ts))
      = open_nodes (insert n S - (\<Union>c \<in> set ts. nodes_of c)) [Exit n]"
    by (simp add: open_nodes_append open_nodes_children[OF Tree.IH])
  then show ?case by auto
qed

lemma open_nodes_between:
  "r \<in> open_nodes S evs \<longleftrightarrow>
     (r \<in> S \<and> Exit r \<notin> set evs)
     \<or> (\<exists>pre post. evs = pre @ Enter r # post \<and> Exit r \<notin> set post)"
proof (induction S evs rule: open_nodes.induct)
  case (1 S)
  then show ?case by simp
next
  case (2 S n evs)
  show ?case
  proof (cases "n = r")
    case True
    have "(\<exists>pre post. Enter n # evs = pre @ Enter r # post \<and> Exit r \<notin> set post) \<longleftrightarrow>
        Exit r \<notin> set evs \<or> (\<exists>pre post. evs = pre @ Enter r # post \<and> Exit r \<notin> set post)"
      (is "?L \<longleftrightarrow> ?R")
    proof
      assume ?L
      then obtain pre post where e: "Enter n # evs = pre @ Enter r # post" "Exit r \<notin> set post"
        by blast
      then show ?R by (cases pre) auto
    next
      assume ?R
      then show ?L
      proof
        assume "Exit r \<notin> set evs"
        with True have "Enter n # evs = [] @ Enter r # evs \<and> Exit r \<notin> set evs" by simp
        then show ?L by blast
      next
        assume "\<exists>pre post. evs = pre @ Enter r # post \<and> Exit r \<notin> set post"
        then obtain pre post where "evs = pre @ Enter r # post" "Exit r \<notin> set post" by blast
        then have "Enter n # evs = (Enter n # pre) @ Enter r # post \<and> Exit r \<notin> set post" by simp
        then show ?L by blast
      qed
    qed
    with 2 True show ?thesis by auto
  next
    case False
    have "(\<exists>pre post. Enter n # evs = pre @ Enter r # post \<and> Exit r \<notin> set post) \<longleftrightarrow>
        (\<exists>pre post. evs = pre @ Enter r # post \<and> Exit r \<notin> set post)"
      (is "?L \<longleftrightarrow> ?R")
    proof
      assume ?L
      then obtain pre post where e: "Enter n # evs = pre @ Enter r # post" "Exit r \<notin> set post"
        by blast
      with False show ?R by (cases pre) auto
    next
      assume ?R
      then obtain pre post where "evs = pre @ Enter r # post" "Exit r \<notin> set post" by blast
      then have "Enter n # evs = (Enter n # pre) @ Enter r # post \<and> Exit r \<notin> set post" by simp
      then show ?L by blast
    qed
    with 2 False show ?thesis by auto
  qed
next
  case (3 S n evs)
  have "(\<exists>pre post. Exit n # evs = pre @ Enter r # post \<and> Exit r \<notin> set post) \<longleftrightarrow>
      (\<exists>pre post. evs = pre @ Enter r # post \<and> Exit r \<notin> set post)"
    (is "?L \<longleftrightarrow> ?R")
  proof
    assume ?L
    then obtain pre post where e: "Exit n # evs = pre @ Enter r # post" "Exit r \<notin> set post"
      by blast
    then show ?R by (cases pre) auto
  next
    assume ?R
    then obtain pre post where "evs = pre @ Enter r # post" "Exit r \<notin> set post" by blast
    then have "Exit n # evs = (Exit n # pre) @ Enter r # post \<and> Exit r \<notin> set post" by simp
    then show ?L by blast
  qed
  with 3 show ?case by auto
qed


section \<open>The function slot\<close>

lemma FunctionDeclaration_slot:
  assumes "FunctionDeclaration h st n = Inr st'"
  shows "reachableFunctionThatWeAreIn st' =
     (if reachableFunctionThatWeAreIn st = None \<and> reachableName st (declaredName h n)
      then Some n else reachableFunctionThatWeAreIn st)"
  using assms
  by (auto simp: FunctionDeclaration_def js doWhen_def declaredName_def reachableName_def
      split: option.splits if_splits sum.splits)

lemma FunctionExpression_slot:
  assumes "FunctionExpression h st n = Inr st'"
  shows "reachableFunctionThatWeAreIn st' =
     (if reachableFunctionThatWeAreIn st = None \<and> reachableName st (boundName h n)
      then Some n else reachableFunctionThatWeAreIn st)"
  using assms
  by (auto simp: FunctionExpression_def js doWhen_def declaredName_def boundName_def reachableName_def
      split: option.splits if_splits sum.splits)

lemma ArrowFunctionExpression_slot:
  assumes "ArrowFunctionExpression h st n = Inr st'"
  shows "reachableFunctionThatWeAreIn st' =
     (if reachableFunctionThatWeAreIn st = None \<and> reachableName st (boundName h n)
      then Some n else reachableFunctionThatWeAreIn st)"
  using assms
  by (auto simp: ArrowFunctionExpression_def js doWhen_def declaredName_def boundName_def reachableName_def
      split: option.splits if_splits sum.splits)

section \<open>The rule callbacks on well-formed nodes\<close>

lemma noReference_MemberExpression_eval:
  assumes "parent (h n) = Some p" and "object (h n) = Some ob" and "property (h n) = Some pr"
    and "type (h p) = ''MemberExpression'' \<longrightarrow> property (h p) = Some q"
  shows "noReferenceDuringSSR_MemberExpression ext F M ctx h st n =
     Inr (if (\<not> isInsideReachableMethod st \<and> \<not> isInsideReachableFunction st
                \<and> \<not> inModuleScope h n ctx) \<or> isInsideSkippedBlock st
          then []
          else if type (h p) = ''MemberExpression'' \<and> type (h ob) = ''Identifier''
                \<and> name (h ob) = Some ''globalThis'' \<and> type (h pr) = ''Identifier''
                \<and> has F (name (h pr)) \<and> optional (h p) \<noteq> Some True
                \<and> isGlobalIdentifier ext (Some ob) (getScope ctx)
          then [\<lparr>messageId = at M 1, node = n,
                  data = [(''identifier'', name (h pr)), (''property'', name (h q))]\<rparr>]
          else if type (h p) \<noteq> ''MemberExpression'' \<and> type (h ob) = ''Identifier''
                \<and> (has F (name (h ob))
                    \<or> (name (h ob) = Some ''globalThis'' \<and> optional (h n) \<noteq> Some True))
                \<and> isGlobalIdentifier ext (Some ob) (getScope ctx)
          then [\<lparr>messageId = at M 0, node = n,
                  data = [(''identifier'',
                    if name (h ob) = Some ''globalThis'' then name (h pr) else name (h ob))]\<rparr>]
          else [])"
  using assms
  by (simp add: noReferenceDuringSSR_MemberExpression_def this_def field_def bindE_def eqE_def
      neqE_def testE_def orE_def)

lemma noReference_Identifier_eval:
  assumes "parent (h n) = Some p"
  shows "noReferenceDuringSSR_Identifier ext F M ctx h st n =
     Inr (if (\<not> isInsideReachableMethod st \<and> \<not> isInsideReachableFunction st
                \<and> \<not> inModuleScope h n ctx) \<or> isInsideSkippedBlock st
          then []
          else if type (h p) \<noteq> ''MemberExpression'' \<and> has F (name (h n))
                \<and> isGlobalIdentifier ext (Some n) (getScope ctx)
          then [\<lparr>messageId = at M 0, node = n, data = [(''identifier'', name (h n))]\<rparr>]
          else [])"
  using assms
  by (simp add: noReferenceDuringSSR_Identifier_def this_def field_def bindE_def eqE_def
      neqE_def testE_def orE_def)

lemma noPropertyAccess_MemberExpression_eval:
  assumes "object (h n) = Some ob" and "property (h n) = Some pr"
  shows "noPropertyAccessDuringSSR_MemberExpression names h st n =
     Inr (if isInsideReachableMethod st \<and> \<not> isInsideSkippedBlock st
            \<and> type (h ob) = ''ThisExpression'' \<and> type (h pr) = ''Identifier''
            \<and> includes' names (name (h pr))
          then [n] else [])"
  using assms
  by (simp add: noPropertyAccessDuringSSR_MemberExpression_def this_def field_def bindE_def
      eqE_def neqE_def testE_def orE_def)

lemma noNodeEnv_MemberExpression_eval:
  assumes "object (h n) = Some ob" and "property (h n) = Some pr"
    and "type (h ob) = ''MemberExpression'' \<longrightarrow> property (h ob) = Some q"
  shows "noNodeEnvInSSR_MemberExpression ctx h st n =
     Inr (if (\<not> isInsideReachableMethod st \<and> \<not> isInsideReachableFunction st
                \<and> \<not> inModuleScope h n ctx) \<or> isInsideSkippedBlock st
          then []
          else if type (h pr) = ''Identifier'' \<and> name (h pr) = Some ''NODE_ENV''
                \<and> type (h ob) = ''MemberExpression''
                \<and> (\<exists>x. object (h ob) = Some x \<and> type (h x) = ''Identifier''
                      \<and> name (h x) = Some ''process'')
                \<and> type (h q) = ''Identifier'' \<and> name (h q) = Some ''env''
          then [\<lparr>messageId = Some ''nodeEnvFound'', node = n,
                  data = [(''identifier'', name (h pr))]\<rparr>]
          else [])"
  using assms
  by (cases "object (h ob)")
     (simp_all add: noNodeEnvInSSR_MemberExpression_def this_def field_def bindE_def eqE_def
      neqE_def testE_def orE_def)


lemmas kinds =  moduleScopeDisqualifiers_def isInsideReachableMethod_def
  isInsideReachableFunction_def isInsideSkippedBlock_def inModuleScope_def emit_def track_def
  at_def


section \<open>Evaluating the examples\<close>

lemmas ex = heap_of_def nd_def ident_def withinLWCVisitors.simps reachableDuringSSRPartial_def
  trackerOnly_def oneScope_def
  Program_def ClassDeclaration_def FunctionDeclaration_def FunctionExpression_def
  ArrowFunctionExpression_def MethodDefinition_def IfStatement_def
  ClassDeclaration_exit_def FunctionDeclaration_exit_def FunctionExpression_exit_def
  ArrowFunctionExpression_exit_def MethodDefinition_exit_def IfStatement_exit_def js doWhen_def

lemmas heaps = method_heap_def heap_of_def chain_def access_def call_def nd_def ident_def
  method_ext_def inMethod_def atStatement_def kinds

section \<open>Containment of the tracker's slots\<close>

text \<open>
  Claim C8. For every sequence of enter and exit events delivered to the tracker, started
  in its initial state (every prefix of every traversal is such a sequence): when one of
  the slots \<^verbatim>\<open>reachableFunctionThatWeAreIn\<close>, \<^verbatim>\<open>reachableMethodThatWeAreIn\<close>,
  \<^verbatim>\<open>skippedBlockThatWeAreIn\<close> holds a node, the enter event of that node has been delivered
  and no exit event of that node has been delivered since. After the complete traversal of
  a tree the three slots are empty.
\<close>

theorem slots_contained:
  assumes "run (trackerOnly ext h) scopeOf ancestors evs reachableDuringSSRPartial = Inr st"
  shows "(\<forall>r. reachableFunctionThatWeAreIn st = Some r \<longrightarrow>
            (\<exists>pre post. evs = pre @ Enter r # post \<and> Exit r \<notin> set post))
       \<and> (\<forall>r. reachableMethodThatWeAreIn st = Some r \<longrightarrow>
            (\<exists>pre post. evs = pre @ Enter r # post \<and> Exit r \<notin> set post))
       \<and> (\<forall>r. skippedBlockThatWeAreIn st = Some r \<longrightarrow>
            (\<exists>pre post. evs = pre @ Enter r # post \<and> Exit r \<notin> set post))
       \<and> (\<forall>t. evs = traverse t \<longrightarrow> reachableFunctionThatWeAreIn st = None
            \<and> reachableMethodThatWeAreIn st = None \<and> skippedBlockThatWeAreIn st = None)"
proof -
  have "contained h {} reachableDuringSSRPartial"
    by (simp add: contained_def reachableDuringSSRPartial_def)
  from run_contained[OF assms[unfolded trackerOnly_eq] this]
  have c: "contained h (open_nodes {} evs) st" .
  have b: "r \<in> open_nodes {} evs \<Longrightarrow> \<exists>pre post. evs = pre @ Enter r # post \<and> Exit r \<notin> set post"
    for r using open_nodes_between[of r "{}" evs] by simp
  have e: "evs = traverse t \<Longrightarrow> open_nodes {} evs = {}" for t
    by (simp add: open_nodes_traverse)
  show ?thesis
  proof (intro conjI allI impI)
    fix r assume "reachableFunctionThatWeAreIn st = Some r"
    with containedD(1)[OF c] b show "\<exists>pre post. evs = pre @ Enter r # post \<and> Exit r \<notin> set post"
      by blast
  next
    fix r assume "reachableMethodThatWeAreIn st = Some r"
    with containedD(2)[OF c] b show "\<exists>pre post. evs = pre @ Enter r # post \<and> Exit r \<notin> set post"
      by blast
  next
    fix r assume "skippedBlockThatWeAreIn st = Some r"
    with containedD(3)[OF c] b show "\<exists>pre post. evs = pre @ Enter r # post \<and> Exit r \<notin> set post"
      by blast
  next
    fix t assume t: "evs = traverse t"
    from c e[OF t] have c0: "contained h {} st" by simp
    from containedD(1)[OF c0] show "reachableFunctionThatWeAreIn st = None"
      by (cases "reachableFunctionThatWeAreIn st") auto
  next
    fix t assume t: "evs = traverse t"
    from c e[OF t] have c0: "contained h {} st" by simp
    from containedD(2)[OF c0] show "reachableMethodThatWeAreIn st = None"
      by (cases "reachableMethodThatWeAreIn st") auto
  next
    fix t assume t: "evs = traverse t"
    from c e[OF t] have c0: "contained h {} st" by simp
    from containedD(3)[OF c0] show "skippedBlockThatWeAreIn st = None"
      by (cases "skippedBlockThatWeAreIn st") auto
  qed
qed

theorem slots_contained_witness:
  "run (trackerOnly fun_ext fun_heap) oneScope []
       [Enter 0, Enter 1, Enter 2, Enter 3, Enter 4] reachableDuringSSRPartial
     = Inr \<lparr>moduleInfo = Some \<lparr>lwcClassDeclaration = None,
               moduleScopedFunctionsReachableDuringSSR = {''outer'', ''inner''},
               methodsReachableDuringSSR = {}\<rparr>,
             insideLWC = False, reachableFunctionThatWeAreIn = Some 1,
             reachableMethodThatWeAreIn = None, skippedBlockThatWeAreIn = None\<rparr>
   \<and> (\<exists>pre post. [Enter 0, Enter 1, Enter 2, Enter 3, Enter 4] = pre @ Enter 1 # post
          \<and> Exit 1 \<notin> set post)"
proof -
  have r: "run (trackerOnly fun_ext fun_heap) oneScope []
       [Enter 0, Enter 1, Enter 2, Enter 3, Enter 4] reachableDuringSSRPartial
     = Inr \<lparr>moduleInfo = Some \<lparr>lwcClassDeclaration = None,
               moduleScopedFunctionsReachableDuringSSR = {''outer'', ''inner''},
               methodsReachableDuringSSR = {}\<rparr>,
             insideLWC = False, reachableFunctionThatWeAreIn = Some 1,
             reachableMethodThatWeAreIn = None, skippedBlockThatWeAreIn = None\<rparr>"
    by (simp add: ex fun_heap_def fun_ext_def)
  from slots_contained[OF r] r show ?thesis by simp
qed

section \<open>Rule 4.2: chained access through \<^verbatim>\<open>globalThis\<close>\<close>

text \<open>
  One visit of the rule at a member access \<^verbatim>\<open>globalThis.X\<close> whose parent is a member access,
  with \<^verbatim>\<open>X\<close> an identifier in the forbidden set and \<^verbatim>\<open>globalThis\<close> resolving to the global,
  in a tracker whose gate is open: one violation of the second message kind, carrying \<^verbatim>\<open>X\<close>
  and the name of the parent's property, unless the parent access is null-safe. Whether the
  gate is open where the traversal reaches the node is the matter of the sections on the
  traversal below.
\<close>

lemma globalThis_chain_step:
  assumes "type (h n) = ''MemberExpression''"
    and "parent (h n) = Some p" and "type (h p) = ''MemberExpression''"
    and "property (h p) = Some q"
    and "object (h n) = Some ob" and "type (h ob) = ''Identifier''"
    and "name (h ob) = Some ''globalThis''"
    and "property (h n) = Some pr" and "type (h pr) = ''Identifier''"
    and "name (h pr) = Some x" and "x \<in> forbiddenGlobalNames"
    and "isGlobalIdentifier ext (Some ob) (getScope ctx)"
    and "isInsideReachableFunction st \<or> isInsideReachableMethod st \<or> inModuleScope h n ctx"
    and "\<not> isInsideSkippedBlock st"
  shows "noReferenceDuringSSR ext forbiddenGlobalNames messageIds h ctx (Enter n) (st, out) =
     Inr (st, out @
       (if optional (h p) = Some True then []
        else [\<lparr>messageId = at messageIds 1, node = n,
                data = [(''identifier'', Some x), (''property'', name (h q))]\<rparr>]))"
proof -
  have "noReferenceDuringSSR_MemberExpression ext forbiddenGlobalNames messageIds ctx h st n =
     Inr (if optional (h p) = Some True then []
        else [\<lparr>messageId = at messageIds 1, node = n,
                data = [(''identifier'', Some x), (''property'', name (h q))]\<rparr>])"
    using assms by (auto simp: noReference_MemberExpression_eval[of h n p ob pr q] has_def)
  with assms(1) show ?thesis by (simp add: emit_def)
qed

text \<open>
  Claim C1 says that \<^verbatim>\<open>globalThis.X.p\<close> inside a reachable method is reported once, with
  the second message kind. The handler for leaving a method definition empties the slot of
  the reachable method whatever method is left, where the handlers for leaving a function
  or a conditional first compare the node with the slot. In
  \<^verbatim>\<open>class C extends LightningElement { connectedCallback() { class Inner { helper() {} } globalThis.document.addEventListener; } }\<close>
  the access \<^verbatim>\<open>globalThis.document\<close> (node 9) lies in the reachable method
  \<^verbatim>\<open>connectedCallback\<close> (node 3) of the component class (node 1), under no escape guard,
  and \<^verbatim>\<open>globalThis\<close> (node 10) is the global; leaving \<^verbatim>\<open>helper\<close> has emptied the slot, and
  the traversal reports nothing. Without the inner class the same statement is reported.
\<close>

theorem nested_class_hides_globalThis_chain:
  "reachableMethod (method_ext True)
       (nested_class_heap (chain ''globalThis'' ''document'' ''addEventListener'' None)) 0 3
   \<and> inComponentClass (method_ext True)
       (nested_class_heap (chain ''globalThis'' ''document'' ''addEventListener'' None)) 0 [0, 1, 2]
   \<and> ancestors_at [] (takeWhile (\<lambda>e. e \<noteq> Enter 9)
        (traverse (nested_class_tree [Tree 8 [Tree 9 [Tree 10 [], Tree 11 []], Tree 12 []]])))
       = [0, 1, 2, 3, 5, 6, 7, 8]
   \<and> isGlobalIdentifier (method_ext True) (Some 10) (oneScope 9)
   \<and> \<not> insideGuard (method_ext True)
       (nested_class_heap (chain ''globalThis'' ''document'' ''addEventListener'' None))
       [0, 1, 2, 3, 5, 6, 7, 8]
   \<and> run (noReferenceDuringSSR (method_ext True) {''document'', ''window''} [''A'', ''B'']
         (nested_class_heap (chain ''globalThis'' ''document'' ''addEventListener'' None)))
       oneScope []
       (traverse (nested_class_tree [Tree 8 [Tree 9 [Tree 10 [], Tree 11 []], Tree 12 []]]))
       (reachableDuringSSRPartial, [])
     = Inr (inMethod\<lparr>insideLWC := False, reachableMethodThatWeAreIn := None\<rparr>, [])
   \<and> run (noReferenceDuringSSR (method_ext True) {''document'', ''window''} [''A'', ''B'']
         (method_heap (chain ''globalThis'' ''document'' ''addEventListener'' None)))
       oneScope []
       (traverse (method_tree [Tree 8 [Tree 9 [Tree 10 [], Tree 11 []], Tree 12 []]]))
       (reachableDuringSSRPartial, [])
     = Inr (inMethod\<lparr>insideLWC := False, reachableMethodThatWeAreIn := None\<rparr>,
        [\<lparr>messageId = Some ''B'', node = 9,
          data = [(''identifier'', Some ''document''), (''property'', Some ''addEventListener'')]\<rparr>])"
  by code_simp

section \<open>Rule 4.2: null-safe accesses\<close>

text \<open>
  Claim C2, as it is written (a null-safe member access is never reported), fails:
  \<^verbatim>\<open>document?.addEventListener\<close> inside a reachable method, with \<^verbatim>\<open>document\<close> forbidden and
  global, is a null-safe access and is reported with the first message kind.
\<close>

theorem null_safe_exempt_counterexample:
  "optional (method_heap (access (ident ''document'') ''addEventListener'' (Some True)) 8) = Some True
   \<and> isInsideReachableMethod inMethod \<and> \<not> isInsideSkippedBlock inMethod
   \<and> noReferenceDuringSSR (method_ext True) {''document'', ''window''} [''A'', ''B'']
       (method_heap (access (ident ''document'') ''addEventListener'' (Some True)))
       atStatement (Enter 8) (inMethod, [])
     = Inr (inMethod, [\<lparr>messageId = Some ''A'', node = 8,
          data = [(''identifier'', Some ''document'')]\<rparr>])"
  by (simp add: heaps js noReferenceDuringSSR_MemberExpression_def)

text \<open>
  Claim C2, amended. A null-safe member access visited in a reachable position outside a
  skipped block is reported in two cases only: with the second message kind when it is
  \<^verbatim>\<open>globalThis.X\<close> with \<^verbatim>\<open>X\<close> forbidden, \<^verbatim>\<open>globalThis\<close> global, and its parent is a member
  access that is not null-safe; with the first message kind when its parent is not a member
  access and its object is an identifier of the forbidden set that resolves to the global.
  In every other case, among them \<^verbatim>\<open>globalThis?.x\<close> with \<^verbatim>\<open>globalThis\<close> not forbidden, nothing
  is reported.
\<close>

theorem null_safe_access:
  assumes "type (h n) = ''MemberExpression''" and "optional (h n) = Some True"
    and "parent (h n) = Some p" and "object (h n) = Some ob" and "property (h n) = Some pr"
    and "type (h p) = ''MemberExpression'' \<longrightarrow> property (h p) = Some q"
    and "isInsideReachableFunction st \<or> isInsideReachableMethod st \<or> inModuleScope h n ctx"
    and "\<not> isInsideSkippedBlock st"
  shows "noReferenceDuringSSR ext forbiddenGlobalNames messageIds h ctx (Enter n) (st, out) =
     Inr (st, out @
       (if type (h p) = ''MemberExpression'' \<and> optional (h p) \<noteq> Some True
            \<and> type (h ob) = ''Identifier'' \<and> name (h ob) = Some ''globalThis''
            \<and> type (h pr) = ''Identifier'' \<and> has forbiddenGlobalNames (name (h pr))
            \<and> isGlobalIdentifier ext (Some ob) (getScope ctx)
        then [\<lparr>messageId = at messageIds 1, node = n,
                data = [(''identifier'', name (h pr)), (''property'', name (h q))]\<rparr>]
        else if type (h p) \<noteq> ''MemberExpression''
            \<and> type (h ob) = ''Identifier'' \<and> has forbiddenGlobalNames (name (h ob))
            \<and> isGlobalIdentifier ext (Some ob) (getScope ctx)
        then [\<lparr>messageId = at messageIds 0, node = n,
                data = [(''identifier'',
                  if name (h ob) = Some ''globalThis'' then name (h pr) else name (h ob))]\<rparr>]
        else []))"
proof -
  have "noReferenceDuringSSR_MemberExpression ext forbiddenGlobalNames messageIds ctx h st n =
     Inr (if type (h p) = ''MemberExpression'' \<and> optional (h p) \<noteq> Some True
            \<and> type (h ob) = ''Identifier'' \<and> name (h ob) = Some ''globalThis''
            \<and> type (h pr) = ''Identifier'' \<and> has forbiddenGlobalNames (name (h pr))
            \<and> isGlobalIdentifier ext (Some ob) (getScope ctx)
        then [\<lparr>messageId = at messageIds 1, node = n,
                data = [(''identifier'', name (h pr)), (''property'', name (h q))]\<rparr>]
        else if type (h p) \<noteq> ''MemberExpression''
            \<and> type (h ob) = ''Identifier'' \<and> has forbiddenGlobalNames (name (h ob))
            \<and> isGlobalIdentifier ext (Some ob) (getScope ctx)
        then [\<lparr>messageId = at messageIds 0, node = n,
                data = [(''identifier'',
                  if name (h ob) = Some ''globalThis'' then name (h pr) else name (h ob))]\<rparr>]
        else [])"
    using assms by (auto simp: noReference_MemberExpression_eval[of h n p ob pr q])
  with assms(1) show ?thesis by (simp add: emit_def)
qed

theorem null_safe_access_witness:
  "noReferenceDuringSSR (method_ext True) {''document'', ''window''} [''A'', ''B'']
       (method_heap (access (ident ''globalThis'') ''addEventListener'' (Some True)))
       atStatement (Enter 8) (inMethod, [])
     = Inr (inMethod, [])"
  using null_safe_access[of
      "method_heap (access (ident ''globalThis'') ''addEventListener'' (Some True))" 8 7 9 10 0
      inMethod atStatement "method_ext True" "{''document'', ''window''}" "[''A'', ''B'']" "[]"]
  by (simp add: heaps js)

section \<open>Rule 4.2: bare identifiers\<close>

text \<open>
  Claim C3, as it is written, asks for a violation at every forbidden global identifier
  that is not the object of a member access. In \<^verbatim>\<open>foo[window]\<close> the identifier
  \<^verbatim>\<open>window\<close> is the property of the access, not its object; it is forbidden and global,
  it is visited inside a reachable method, and nothing is reported for it.
\<close>

theorem bare_identifier_counterexample:
  "object (method_heap (access (ident ''foo'') ''window'' None) 8) \<noteq> Some 10
   \<and> name (method_heap (access (ident ''foo'') ''window'' None) 10) = Some ''window''
   \<and> isGlobalIdentifier (method_ext True) (Some 10) 0
   \<and> isInsideReachableMethod inMethod \<and> \<not> isInsideSkippedBlock inMethod
   \<and> noReferenceDuringSSR (method_ext True) {''document'', ''window''} [''A'', ''B'']
       (method_heap (access (ident ''foo'') ''window'' None))
       \<lparr>getAncestors = [0, 1, 2, 3, 5, 6, 7, 8], getScope = 0\<rparr> (Enter 10) (inMethod, [])
     = Inr (inMethod, [])"
  by (simp add: heaps js noReferenceDuringSSR_Identifier_def)

text \<open>
  One visit of the rule at an identifier whose parent is not a member access and whose
  name is in the forbidden set, in a tracker whose gate is open: one violation of the
  first message kind, carrying the name, when the identifier resolves to the global, and
  nothing when it resolves to a local declaration.
\<close>

lemma bare_identifier_step:
  assumes "type (h n) = ''Identifier''"
    and "parent (h n) = Some p" and "type (h p) \<noteq> ''MemberExpression''"
    and "name (h n) = Some x" and "x \<in> forbiddenGlobalNames"
    and "isInsideReachableFunction st \<or> isInsideReachableMethod st \<or> inModuleScope h n ctx"
    and "\<not> isInsideSkippedBlock st"
  shows "noReferenceDuringSSR ext forbiddenGlobalNames messageIds h ctx (Enter n) (st, out) =
     Inr (st, out @
       (if isGlobalIdentifier ext (Some n) (getScope ctx)
        then [\<lparr>messageId = at messageIds 0, node = n, data = [(''identifier'', Some x)]\<rparr>]
        else []))"
proof -
  have "noReferenceDuringSSR_Identifier ext forbiddenGlobalNames messageIds ctx h st n =
     Inr (if isGlobalIdentifier ext (Some n) (getScope ctx)
        then [\<lparr>messageId = at messageIds 0, node = n, data = [(''identifier'', Some x)]\<rparr>]
        else [])"
    using assms by (auto simp: noReference_Identifier_eval[of h n p] has_def)
  with assms(1) show ?thesis by (simp add: emit_def)
qed

section \<open>Rule 4.3: forbidden instance properties\<close>

text \<open>
  One visit of the rule at a member access: the node is handed to the reporter, once,
  exactly when the slot of the reachable method is set, the slot of the skipped block is
  empty, the object is \<^verbatim>\<open>this\<close> and the property is an identifier of the forbidden list.
\<close>

lemma this_property_step:
  assumes "type (h n) = ''MemberExpression''" and "object (h n) = Some ob"
    and "property (h n) = Some pr"
  shows "noPropertyAccessDuringSSR ext forbiddenPropertyNames h ctx (Enter n) (st, out) =
        Inr (st, out @
          (if isInsideReachableMethod st \<and> \<not> isInsideSkippedBlock st
              \<and> type (h ob) = ''ThisExpression'' \<and> type (h pr) = ''Identifier''
              \<and> includes' forbiddenPropertyNames (name (h pr))
           then [n] else []))"
  using assms
  by (simp add: noPropertyAccess_MemberExpression_eval[of h n ob pr] emit_def)

text \<open>
  Claim C5 says that the rule reports a node exactly when it is \<^verbatim>\<open>this.p\<close>, with \<^verbatim>\<open>p\<close> in the
  forbidden list, inside a reachable method and outside any escape guard. Both directions
  fail in a traversal, because each of the two slots holds one node and is emptied too
  early. In
  \<^verbatim>\<open>class C extends LightningElement { connectedCallback() { class Inner { helper() {} } this.template; } }\<close>
  the access (node 8) lies in the reachable method (node 3) under no guard, and is not
  reported: leaving \<^verbatim>\<open>helper\<close> has emptied the slot of the method. In
  \<^verbatim>\<open>class C extends LightningElement { connectedCallback() { if (typeof window !== 'undefined') { if (typeof document !== 'undefined') {} this.template; } } }\<close>
  the access (node 8) lies in the block (node 31) of the recognized guard (node 30), and
  is reported: leaving the inner guard (node 32) has emptied the slot of the skipped block.
  Without the inner class and without the guards the access is reported once.
\<close>

theorem this_property_not_exactly_in_method:
  "reachableMethod (method_ext True)
       (nested_class_heap (access (nd ''ThisExpression'') ''template'' None)) 0 3
   \<and> inComponentClass (method_ext True)
       (nested_class_heap (access (nd ''ThisExpression'') ''template'' None)) 0 [0, 1, 2]
   \<and> ancestors_at [] (takeWhile (\<lambda>e. e \<noteq> Enter 8)
        (traverse (nested_class_tree [Tree 8 [Tree 9 [], Tree 10 []]])))
       = [0, 1, 2, 3, 5, 6, 7]
   \<and> \<not> insideGuard (method_ext True)
       (nested_class_heap (access (nd ''ThisExpression'') ''template'' None)) [0, 1, 2, 3, 5, 6, 7]
   \<and> run (noPropertyAccessDuringSSR (method_ext True) [''template'', ''dispatchEvent'']
         (nested_class_heap (access (nd ''ThisExpression'') ''template'' None)))
       oneScope []
       (traverse (nested_class_tree [Tree 8 [Tree 9 [], Tree 10 []]]))
       (reachableDuringSSRPartial, [])
     = Inr (inMethod\<lparr>insideLWC := False, reachableMethodThatWeAreIn := None\<rparr>, [])
   \<and> ancestors_at [] (takeWhile (\<lambda>e. e \<noteq> Enter 8)
        (traverse (guarded_method_tree [Tree 8 [Tree 9 [], Tree 10 []]])))
       = [0, 1, 2, 3, 5, 6, 30, 31, 7]
   \<and> insideGuard guarded_method_ext
       (guarded_method_heap (access (nd ''ThisExpression'') ''template'' None))
       [0, 1, 2, 3, 5, 6, 30, 31, 7]
   \<and> run (noPropertyAccessDuringSSR guarded_method_ext [''template'', ''dispatchEvent'']
         (guarded_method_heap (access (nd ''ThisExpression'') ''template'' None)))
       oneScope []
       (traverse (guarded_method_tree [Tree 8 [Tree 9 [], Tree 10 []]]))
       (reachableDuringSSRPartial, [])
     = Inr (inMethod\<lparr>insideLWC := False, reachableMethodThatWeAreIn := None\<rparr>, [8])
   \<and> run (noPropertyAccessDuringSSR (method_ext True) [''template'', ''dispatchEvent'']
         (method_heap (access (nd ''ThisExpression'') ''template'' None)))
       oneScope []
       (traverse (method_tree [Tree 8 [Tree 9 [], Tree 10 []]]))
       (reachableDuringSSRPartial, [])
     = Inr (inMethod\<lparr>insideLWC := False, reachableMethodThatWeAreIn := None\<rparr>, [8])"
  by code_simp

section \<open>Rule 4.4: \<^verbatim>\<open>process.env.NODE_ENV\<close>\<close>

text \<open>
  One visit of the rule at a member access \<^verbatim>\<open>a.env.NODE_ENV\<close> (property identifier
  \<^verbatim>\<open>NODE_ENV\<close>, object a member access with property identifier \<^verbatim>\<open>env\<close> and object the
  identifier \<^verbatim>\<open>a\<close>), in a tracker whose gate is open: one violation when \<^verbatim>\<open>a\<close> is
  \<^verbatim>\<open>process\<close>, and none when it is any other name.
\<close>

lemma node_env_step:
  assumes "type (h n) = ''MemberExpression''"
    and "property (h n) = Some pr" and "type (h pr) = ''Identifier''"
    and "name (h pr) = Some ''NODE_ENV''"
    and "object (h n) = Some ob" and "type (h ob) = ''MemberExpression''"
    and "property (h ob) = Some q" and "type (h q) = ''Identifier''"
    and "name (h q) = Some ''env''"
    and "object (h ob) = Some x" and "type (h x) = ''Identifier''" and "name (h x) = Some a"
    and "isInsideReachableFunction st \<or> isInsideReachableMethod st \<or> inModuleScope h n ctx"
    and "\<not> isInsideSkippedBlock st"
  shows "noNodeEnvInSSR ext h ctx (Enter n) (st, out) =
     Inr (st, out @
       (if a = ''process''
        then [\<lparr>messageId = Some ''nodeEnvFound'', node = n,
                data = [(''identifier'', Some ''NODE_ENV'')]\<rparr>]
        else []))"
proof -
  have "noNodeEnvInSSR_MemberExpression ctx h st n =
     Inr (if a = ''process''
        then [\<lparr>messageId = Some ''nodeEnvFound'', node = n,
                data = [(''identifier'', Some ''NODE_ENV'')]\<rparr>]
        else [])"
    using assms by (auto simp: noNodeEnv_MemberExpression_eval[of h n ob pr q])
  with assms(1) show ?thesis by (simp add: emit_def)
qed

text \<open>
  Claim C6 says that \<^verbatim>\<open>process.env.NODE_ENV\<close> inside a reachable method is reported once.
  In
  \<^verbatim>\<open>class C extends LightningElement { connectedCallback() { class Inner { helper() {} } process.env.NODE_ENV; } }\<close>
  the access (node 8) lies in the reachable method \<^verbatim>\<open>connectedCallback\<close> (node 3) of the
  component class (node 1), under no escape guard; leaving \<^verbatim>\<open>helper\<close> has emptied the slot
  of the reachable method, and the traversal reports nothing. Without the inner class the
  same statement is reported.
\<close>

theorem nested_class_hides_node_env:
  "reachableMethod (method_ext True)
       (nested_class_heap (chain ''process'' ''env'' ''NODE_ENV'' None)) 0 3
   \<and> inComponentClass (method_ext True)
       (nested_class_heap (chain ''process'' ''env'' ''NODE_ENV'' None)) 0 [0, 1, 2]
   \<and> ancestors_at [] (takeWhile (\<lambda>e. e \<noteq> Enter 8)
        (traverse (nested_class_tree [Tree 8 [Tree 9 [Tree 10 [], Tree 11 []], Tree 12 []]])))
       = [0, 1, 2, 3, 5, 6, 7]
   \<and> \<not> insideGuard (method_ext True)
       (nested_class_heap (chain ''process'' ''env'' ''NODE_ENV'' None)) [0, 1, 2, 3, 5, 6, 7]
   \<and> run (noNodeEnvInSSR (method_ext True)
         (nested_class_heap (chain ''process'' ''env'' ''NODE_ENV'' None)))
       oneScope []
       (traverse (nested_class_tree [Tree 8 [Tree 9 [Tree 10 [], Tree 11 []], Tree 12 []]]))
       (reachableDuringSSRPartial, [])
     = Inr (inMethod\<lparr>insideLWC := False, reachableMethodThatWeAreIn := None\<rparr>, [])
   \<and> run (noNodeEnvInSSR (method_ext True)
         (method_heap (chain ''process'' ''env'' ''NODE_ENV'' None)))
       oneScope []
       (traverse (method_tree [Tree 8 [Tree 9 [Tree 10 [], Tree 11 []], Tree 12 []]]))
       (reachableDuringSSRPartial, [])
     = Inr (inMethod\<lparr>insideLWC := False, reachableMethodThatWeAreIn := None\<rparr>,
        [\<lparr>messageId = Some ''nodeEnvFound'', node = 8,
          data = [(''identifier'', Some ''NODE_ENV'')]\<rparr>])"
  by code_simp

section \<open>Rule 4.2: chained access on a forbidden global\<close>

text \<open>
  Claim C9. For a chained access \<^verbatim>\<open>X.b.c\<close> whose innermost object \<^verbatim>\<open>X\<close> is an identifier
  other than \<^verbatim>\<open>globalThis\<close> (a forbidden global such as \<^verbatim>\<open>document\<close>), rule 4.2 reports
  nothing, whatever the state of the tracker: not at the inner access \<^verbatim>\<open>X.b\<close> (its parent
  is a member access and its object is not \<^verbatim>\<open>globalThis\<close>), not at the outer access (its
  object is not an identifier), and not at the identifier \<^verbatim>\<open>X\<close> (its parent is a member
  access).
\<close>

theorem chained_forbidden_global_not_reported:
  assumes "type (h n) = ''MemberExpression''"
    and "parent (h n) = Some p" and "type (h p) = ''MemberExpression''"
    and "object (h p) = Some n" and "property (h p) = Some q" and "parent (h p) = Some pp"
    and "object (h n) = Some ob" and "property (h n) = Some pr"
    and "type (h ob) = ''Identifier''" and "parent (h ob) = Some n"
    and "name (h ob) = Some x" and "x \<in> forbiddenGlobalNames" and "x \<noteq> ''globalThis''"
  shows "noReferenceDuringSSR ext forbiddenGlobalNames messageIds h ctx (Enter n) (st, out)
           = Inr (st, out)
       \<and> noReferenceDuringSSR ext forbiddenGlobalNames messageIds h ctx' (Enter p) (st, out)
           = Inr (st, out)
       \<and> noReferenceDuringSSR ext forbiddenGlobalNames messageIds h ctx'' (Enter ob) (st, out)
           = Inr (st, out)"
proof -
  have 1: "noReferenceDuringSSR_MemberExpression ext forbiddenGlobalNames messageIds ctx h st n
      = Inr []"
    using assms by (simp add: noReference_MemberExpression_eval[of h n p ob pr q])
  have 2: "noReferenceDuringSSR_MemberExpression ext forbiddenGlobalNames messageIds ctx' h st p
      = Inr []"
    using assms
    by (simp add: noReferenceDuringSSR_MemberExpression_def this_def field_def bindE_def eqE_def
        neqE_def testE_def orE_def split: sum.splits)
  have 3: "noReferenceDuringSSR_Identifier ext forbiddenGlobalNames messageIds ctx'' h st ob
      = Inr []"
    using assms by (simp add: noReference_Identifier_eval[of h ob n])
  from 1 2 3 assms(1,3,9) show ?thesis by (simp add: emit_def)
qed

theorem chained_forbidden_global_not_reported_witness:
  "noReferenceDuringSSR (method_ext True) {''document'', ''window''} [''A'', ''B'']
       (method_heap (chain ''document'' ''body'' ''addEventListener'' None))
       \<lparr>getAncestors = [0, 1, 2, 3, 5, 6, 7, 8], getScope = 0\<rparr> (Enter 9) (inMethod, [])
     = Inr (inMethod, [])
   \<and> noReferenceDuringSSR (method_ext True) {''document'', ''window''} [''A'', ''B'']
       (method_heap (chain ''document'' ''body'' ''addEventListener'' None))
       atStatement (Enter 8) (inMethod, [])
     = Inr (inMethod, [])
   \<and> noReferenceDuringSSR (method_ext True) {''document'', ''window''} [''A'', ''B'']
       (method_heap (chain ''document'' ''body'' ''addEventListener'' None))
       \<lparr>getAncestors = [0, 1, 2, 3, 5, 6, 7, 8, 9], getScope = 0\<rparr> (Enter 10) (inMethod, [])
     = Inr (inMethod, [])"
  using chained_forbidden_global_not_reported[of
      "method_heap (chain ''document'' ''body'' ''addEventListener'' None)" 9 8 12 7 10 11
      "''document''" "{''document'', ''window''}" "method_ext True" "[''A'', ''B'']"
      "\<lparr>getAncestors = [0, 1, 2, 3, 5, 6, 7, 8], getScope = 0\<rparr>" inMethod "[]" atStatement
      "\<lparr>getAncestors = [0, 1, 2, 3, 5, 6, 7, 8, 9], getScope = 0\<rparr>"]
  by (simp add: heaps js)

section \<open>The slot of the reachable function\<close>

text \<open>
  Claim C7, as it is written, ends: when a matching function is entered while another is
  active, the slot holds the innermost matching function entered. In
  \<^verbatim>\<open>function outer() { function inner() {} }\<close> with both names reachable, after the
  traversal has entered \<^verbatim>\<open>outer\<close> (node 1) and then \<^verbatim>\<open>inner\<close> (node 4), the slot holds
  \<^verbatim>\<open>outer\<close>.
\<close>

theorem function_slot_innermost_counterexample:
  "reachableName (reachableDuringSSRPartial\<lparr>moduleInfo := Some (analyze fun_ext 0)\<rparr>)
       (declaredName fun_heap 4)
   \<and> map_sum id reachableFunctionThatWeAreIn
       (run (trackerOnly fun_ext fun_heap) oneScope []
          [Enter 0, Enter 1, Enter 2, Enter 3, Enter 4] reachableDuringSSRPartial)
     = Inr (Some 1)"
  by (simp add: ex fun_heap_def fun_ext_def reachableName_def declaredName_def)

text \<open>
  Claim C7, amended. Entering a function declaration, a function expression or an arrow
  function sets the slot to the entered node exactly when the slot is empty and the name
  of the function (of the declaration, or of the variable declarator the expression is
  bound to) is one of the module-scoped functions reachable during SSR; otherwise the slot
  is unchanged, so that a matching function entered while another is active leaves the
  function entered first in the slot. Leaving such a node empties the slot exactly when
  the slot holds the node left.
\<close>

theorem function_slot_first_entered_wins:
  "(FunctionDeclaration h st n = Inr sa \<longrightarrow>
      reachableFunctionThatWeAreIn sa =
        (if reachableFunctionThatWeAreIn st = None \<and> reachableName st (declaredName h n)
         then Some n else reachableFunctionThatWeAreIn st))
   \<and> (FunctionExpression h st n = Inr sb \<longrightarrow>
      reachableFunctionThatWeAreIn sb =
        (if reachableFunctionThatWeAreIn st = None \<and> reachableName st (boundName h n)
         then Some n else reachableFunctionThatWeAreIn st))
   \<and> (ArrowFunctionExpression h st n = Inr sc \<longrightarrow>
      reachableFunctionThatWeAreIn sc =
        (if reachableFunctionThatWeAreIn st = None \<and> reachableName st (boundName h n)
         then Some n else reachableFunctionThatWeAreIn st))
   \<and> map_sum id reachableFunctionThatWeAreIn (FunctionDeclaration_exit st n)
       = Inr (if reachableFunctionThatWeAreIn st = Some n then None
              else reachableFunctionThatWeAreIn st)
   \<and> map_sum id reachableFunctionThatWeAreIn (FunctionExpression_exit st n)
       = Inr (if reachableFunctionThatWeAreIn st = Some n then None
              else reachableFunctionThatWeAreIn st)
   \<and> map_sum id reachableFunctionThatWeAreIn (ArrowFunctionExpression_exit st n)
       = Inr (if reachableFunctionThatWeAreIn st = Some n then None
              else reachableFunctionThatWeAreIn st)"
proof (intro conjI impI)
  assume "FunctionDeclaration h st n = Inr sa"
  then show "reachableFunctionThatWeAreIn sa =
        (if reachableFunctionThatWeAreIn st = None \<and> reachableName st (declaredName h n)
         then Some n else reachableFunctionThatWeAreIn st)"
    by (rule FunctionDeclaration_slot)
next
  assume "FunctionExpression h st n = Inr sb"
  then show "reachableFunctionThatWeAreIn sb =
        (if reachableFunctionThatWeAreIn st = None \<and> reachableName st (boundName h n)
         then Some n else reachableFunctionThatWeAreIn st)"
    by (rule FunctionExpression_slot)
next
  assume "ArrowFunctionExpression h st n = Inr sc"
  then show "reachableFunctionThatWeAreIn sc =
        (if reachableFunctionThatWeAreIn st = None \<and> reachableName st (boundName h n)
         then Some n else reachableFunctionThatWeAreIn st)"
    by (rule ArrowFunctionExpression_slot)
qed (auto simp: FunctionDeclaration_exit_def FunctionExpression_exit_def
      ArrowFunctionExpression_exit_def)

theorem function_slot_first_entered_wins_witness:
  "FunctionDeclaration fun_heap
       (reachableDuringSSRPartial\<lparr>moduleInfo := Some (analyze fun_ext 0)\<rparr>) 1
     = Inr (reachableDuringSSRPartial\<lparr>moduleInfo := Some (analyze fun_ext 0),
              reachableFunctionThatWeAreIn := Some 1\<rparr>)
   \<and> FunctionExpression fun_heap
       (reachableDuringSSRPartial\<lparr>moduleInfo := Some (analyze fun_ext 0)\<rparr>) 1
     = Inr (reachableDuringSSRPartial\<lparr>moduleInfo := Some (analyze fun_ext 0)\<rparr>)
   \<and> ArrowFunctionExpression fun_heap
       (reachableDuringSSRPartial\<lparr>moduleInfo := Some (analyze fun_ext 0)\<rparr>) 1
     = Inr (reachableDuringSSRPartial\<lparr>moduleInfo := Some (analyze fun_ext 0)\<rparr>)
   \<and> reachableFunctionThatWeAreIn
        (reachableDuringSSRPartial\<lparr>moduleInfo := Some (analyze fun_ext 0),
              reachableFunctionThatWeAreIn := Some 1\<rparr>) =
        (if reachableFunctionThatWeAreIn
              (reachableDuringSSRPartial\<lparr>moduleInfo := Some (analyze fun_ext 0)\<rparr>) = None
            \<and> reachableName (reachableDuringSSRPartial\<lparr>moduleInfo := Some (analyze fun_ext 0)\<rparr>)
                 (declaredName fun_heap 1)
         then Some 1
         else reachableFunctionThatWeAreIn
                (reachableDuringSSRPartial\<lparr>moduleInfo := Some (analyze fun_ext 0)\<rparr>))"
  (is "?a \<and> ?b \<and> ?c \<and> ?d")
proof -
  have a: ?a by (simp add: ex fun_heap_def fun_ext_def)
  have b: ?b by (simp add: ex fun_heap_def fun_ext_def)
  have c: ?c by (simp add: ex fun_heap_def fun_ext_def)
  from a function_slot_first_entered_wins[of fun_heap
      "reachableDuringSSRPartial\<lparr>moduleInfo := Some (analyze fun_ext 0)\<rparr>" 1
      "reachableDuringSSRPartial\<lparr>moduleInfo := Some (analyze fun_ext 0),
              reachableFunctionThatWeAreIn := Some 1\<rparr>"
      "reachableDuringSSRPartial\<lparr>moduleInfo := Some (analyze fun_ext 0)\<rparr>"
      "reachableDuringSSRPartial\<lparr>moduleInfo := Some (analyze fun_ext 0)\<rparr>"]
  have d: ?d by blast
  from a b c d show ?thesis by blast
qed

section \<open>The gate of the skipped block, and the examples traversed\<close>

text \<open>While the slot of the skipped block is set, no callback of any rule reports.\<close>

lemma skipped_block_silences:
  assumes "isInsideSkippedBlock st"
  shows "noReferenceDuringSSR_MemberExpression ext F M ctx h st n = Inr []"
    and "noReferenceDuringSSR_Identifier ext F M ctx h st n = Inr []"
    and "noPropertyAccessDuringSSR_MemberExpression names h st n = Inr []"
    and "noNodeEnvInSSR_MemberExpression ctx h st n = Inr []"
  using assms
  by (simp_all add: noReferenceDuringSSR_MemberExpression_def noReferenceDuringSSR_Identifier_def
      noPropertyAccessDuringSSR_MemberExpression_def noNodeEnvInSSR_MemberExpression_def)

text \<open>
  The whole traversal of the component whose method holds
  \<^verbatim>\<open>globalThis.document.addEventListener\<close>: one violation, at the inner access; none for the
  null-safe \<^verbatim>\<open>globalThis.document?.addEventListener\<close>. The state \<open>inMethod\<close> is the one the
  traversal is in when it reaches the statement.
\<close>

lemma method_example_run:
  "run (noReferenceDuringSSR (method_ext True) {''document'', ''window''} [''A'', ''B'']
         (method_heap (chain ''globalThis'' ''document'' ''addEventListener'' None)))
       oneScope []
       (traverse (method_tree [Tree 8 [Tree 9 [Tree 10 [], Tree 11 []], Tree 12 []]]))
       (reachableDuringSSRPartial, [])
     = Inr (inMethod\<lparr>insideLWC := False, reachableMethodThatWeAreIn := None\<rparr>,
        [\<lparr>messageId = Some ''B'', node = 9,
          data = [(''identifier'', Some ''document''), (''property'', Some ''addEventListener'')]\<rparr>])"
  by code_simp

lemma method_example_run_null_safe:
  "run (noReferenceDuringSSR (method_ext True) {''document'', ''window''} [''A'', ''B'']
         (method_heap (chain ''globalThis'' ''document'' ''addEventListener'' (Some True))))
       oneScope []
       (traverse (method_tree [Tree 8 [Tree 9 [Tree 10 [], Tree 11 []], Tree 12 []]]))
       (reachableDuringSSRPartial, [])
     = Inr (inMethod\<lparr>insideLWC := False, reachableMethodThatWeAreIn := None\<rparr>, [])"
  by code_simp

lemma method_example_inMethod:
  "run (noReferenceDuringSSR (method_ext True) {''document'', ''window''} [''A'', ''B'']
         (method_heap (chain ''globalThis'' ''document'' ''addEventListener'' None)))
       oneScope []
       [Enter 0, Enter 1, Enter 2, Enter 3, Enter 4, Exit 4, Enter 5, Enter 6, Enter 7]
       (reachableDuringSSRPartial, [])
     = Inr (inMethod, [])"
  by code_simp

section \<open>Nested escape guards\<close>

text \<open>
  Claim C4 says that a forbidden reference inside a recognized escape guard is never
  reported, also when the guard contains another recognized guard. The tracker keeps one
  slot for the guard: entering the inner guard overwrites it and leaving the inner guard
  empties it, so what follows the inner guard inside the outer one is visited as if
  unguarded. In
  \<^verbatim>\<open>if (typeof window !== 'undefined') { if (typeof document !== 'undefined') {} window; }\<close>
  both conditionals are recognized guards, the identifier \<^verbatim>\<open>window\<close> (node 14) lies in the
  block (node 6) of the outer guard (node 1), and the traversal reports it.
\<close>

theorem nested_guard_reported:
  "isSSREscape guard_ext 1 \<and> isSSREscape guard_ext 7
   \<and> parent (guard_heap 14) = Some 13 \<and> parent (guard_heap 13) = Some 6
   \<and> parent (guard_heap 6) = Some 1
   \<and> run (noReferenceDuringSSR guard_ext {''document'', ''window''} [''A'', ''B''] guard_heap)
       oneScope [] (traverse guard_tree) (reachableDuringSSRPartial, [])
     = Inr (reachableDuringSSRPartial\<lparr>moduleInfo := Some (analyze guard_ext 0)\<rparr>,
        [\<lparr>messageId = Some ''A'', node = 14, data = [(''identifier'', Some ''window'')]\<rparr>])"
  by code_simp

section \<open>Well-formed trees\<close>

lemma shape_okD:
  assumes "estree_ok h"
  shows "type (h n) = ''MemberExpression'' \<Longrightarrow>
           \<exists>p ob pr. parent (h n) = Some p \<and> object (h n) = Some ob \<and> property (h n) = Some pr"
    and "type (h n) = ''Identifier'' \<Longrightarrow> \<exists>p. parent (h n) = Some p"
    and "type (h n) = ''FunctionExpression'' \<Longrightarrow> \<exists>p. parent (h n) = Some p"
    and "type (h n) = ''ArrowFunctionExpression'' \<Longrightarrow> \<exists>p. parent (h n) = Some p"
    and "type (h n) = ''VariableDeclarator'' \<Longrightarrow> \<exists>i. id' (h n) = Some i"
    and "type (h n) = ''MethodDefinition'' \<Longrightarrow> \<exists>k. key (h n) = Some k"
  using assms unfolding estree_ok_def shape_ok_def by (metis not_None_eq)+

lemma ClassDeclaration_total:
  "moduleInfo st \<noteq> None \<Longrightarrow> \<exists>s. ClassDeclaration st n = Inr s \<and> moduleInfo s = moduleInfo st"
  by (auto simp: ClassDeclaration_def readInfo_def eqE_def doWhen_def)

lemma ClassDeclaration_exit_total:
  "moduleInfo st \<noteq> None \<Longrightarrow> \<exists>s. ClassDeclaration_exit st n = Inr s \<and> moduleInfo s = moduleInfo st"
  by (auto simp: ClassDeclaration_exit_def readInfo_def eqE_def doWhen_def)

lemma FunctionDeclaration_total:
  "moduleInfo st \<noteq> None \<Longrightarrow> \<exists>s. FunctionDeclaration h st n = Inr s \<and> moduleInfo s = moduleInfo st"
  by (cases "id' (h n)")
     (auto simp: FunctionDeclaration_def this_def field_def bindE_def eqE_def testE_def
        readInfo_def doWhen_def)

lemma bound_function_total:
  assumes "estree_ok h" and "moduleInfo st \<noteq> None" and "parent (h n) = Some p"
  shows "\<exists>b. all_of
        [Inr (reachableFunctionThatWeAreIn st = None),
         eqE (field h type (field h parent (this n))) ''VariableDeclarator'',
         eqE (field h type (field h id' (field h parent (this n)))) ''Identifier'',
         bindE (readInfo st moduleScopedFunctionsReachableDuringSSR) (\<lambda>S.
           testE (field h name (field h id' (field h parent (this n)))) (has S))] = Inr b"
proof (cases "type (h p) = ''VariableDeclarator''")
  case True
  from shape_okD(5)[OF assms(1) True] obtain i where "id' (h p) = Some i" ..
  with assms(2,3) show ?thesis
    by (auto simp: this_def field_def bindE_def eqE_def testE_def readInfo_def)
next
  case False
  with assms(3) show ?thesis
    by (auto simp: this_def field_def eqE_def)
qed

lemma FunctionExpression_total:
  assumes "estree_ok h" and "moduleInfo st \<noteq> None" and "type (h n) = ''FunctionExpression''"
  shows "\<exists>s. FunctionExpression h st n = Inr s \<and> moduleInfo s = moduleInfo st"
proof -
  from shape_okD(3)[OF assms(1,3)] obtain p where "parent (h n) = Some p" ..
  from bound_function_total[OF assms(1,2) this] obtain b where "all_of
        [Inr (reachableFunctionThatWeAreIn st = None),
         eqE (field h type (field h parent (this n))) ''VariableDeclarator'',
         eqE (field h type (field h id' (field h parent (this n)))) ''Identifier'',
         bindE (readInfo st moduleScopedFunctionsReachableDuringSSR) (\<lambda>S.
           testE (field h name (field h id' (field h parent (this n)))) (has S))] = Inr b" ..
  then show ?thesis unfolding FunctionExpression_def by (simp add: doWhen_def)
qed

lemma ArrowFunctionExpression_total:
  assumes "estree_ok h" and "moduleInfo st \<noteq> None"
    and "type (h n) = ''ArrowFunctionExpression''"
  shows "\<exists>s. ArrowFunctionExpression h st n = Inr s \<and> moduleInfo s = moduleInfo st"
proof -
  from shape_okD(4)[OF assms(1,3)] obtain p where "parent (h n) = Some p" ..
  from bound_function_total[OF assms(1,2) this] obtain b where "all_of
        [Inr (reachableFunctionThatWeAreIn st = None),
         eqE (field h type (field h parent (this n))) ''VariableDeclarator'',
         eqE (field h type (field h id' (field h parent (this n)))) ''Identifier'',
         bindE (readInfo st moduleScopedFunctionsReachableDuringSSR) (\<lambda>S.
           testE (field h name (field h id' (field h parent (this n)))) (has S))] = Inr b" ..
  then show ?thesis unfolding ArrowFunctionExpression_def by (simp add: doWhen_def)
qed

lemma MethodDefinition_total:
  assumes "estree_ok h" and "moduleInfo st \<noteq> None" and "type (h n) = ''MethodDefinition''"
  shows "\<exists>s. MethodDefinition h st n = Inr s \<and> moduleInfo s = moduleInfo st"
proof -
  from shape_okD(6)[OF assms(1,3)] obtain k where "key (h n) = Some k" ..
  with assms(2) show ?thesis
    by (auto simp: MethodDefinition_def this_def field_def bindE_def eqE_def testE_def
        readInfo_def doWhen_def)
qed

lemma withinLWCVisitors_total:
  assumes "estree_ok h" and "moduleInfo st \<noteq> None"
  shows "\<exists>s. withinLWCVisitors ext h ev st = Inr s \<and> moduleInfo s \<noteq> None"
proof (cases ev)
  case (Enter n)
  show ?thesis
  proof (cases rule: enter_dispatch[of h n ext st])
    case Program
    with Enter show ?thesis by (simp add: Program_def)
  next
    case ClassDeclaration
    with Enter ClassDeclaration_total[OF assms(2), of n] assms(2) show ?thesis by auto
  next
    case FunctionDeclaration
    with Enter FunctionDeclaration_total[OF assms(2), of h n] assms(2) show ?thesis by auto
  next
    case FunctionExpression
    with Enter FunctionExpression_total[OF assms, of n] assms(2) show ?thesis by auto
  next
    case ArrowFunctionExpression
    with Enter ArrowFunctionExpression_total[OF assms, of n] assms(2) show ?thesis by auto
  next
    case MethodDefinition
    with Enter MethodDefinition_total[OF assms, of n] assms(2) show ?thesis by auto
  next
    case IfStatement
    with Enter assms(2) show ?thesis by (simp add: IfStatement_def)
  next
    case Other
    with Enter assms(2) show ?thesis by simp
  qed
next
  case (Exit n)
  show ?thesis
  proof (cases rule: exit_dispatch[of h n ext st])
    case ClassDeclaration
    with Exit ClassDeclaration_exit_total[OF assms(2), of n] assms(2) show ?thesis by auto
  next
    case FunctionDeclaration
    with Exit assms(2) show ?thesis by (simp add: FunctionDeclaration_exit_def)
  next
    case FunctionExpression
    with Exit assms(2) show ?thesis by (simp add: FunctionExpression_exit_def)
  next
    case ArrowFunctionExpression
    with Exit assms(2) show ?thesis by (simp add: ArrowFunctionExpression_exit_def)
  next
    case MethodDefinition
    with Exit assms(2) show ?thesis by (simp add: MethodDefinition_exit_def)
  next
    case IfStatement
    with Exit assms(2) show ?thesis by (simp add: IfStatement_exit_def)
  next
    case Other
    with Exit assms(2) show ?thesis by simp
  qed
qed

lemma noReference_MemberExpression_total:
  assumes "estree_ok h" and "type (h n) = ''MemberExpression''"
  shows "\<exists>rs. noReferenceDuringSSR_MemberExpression ext F M ctx h st n = Inr rs \<and> length rs \<le> 1"
proof -
  from shape_okD(1)[OF assms] obtain p ob pr where
    f: "parent (h n) = Some p" "object (h n) = Some ob" "property (h n) = Some pr" by blast
  have "\<exists>q. type (h p) = ''MemberExpression'' \<longrightarrow> property (h p) = Some q"
    using shape_okD(1)[OF assms(1), of p] by blast
  then obtain q where "type (h p) = ''MemberExpression'' \<longrightarrow> property (h p) = Some q" ..
  with f noReference_MemberExpression_eval[of h n p ob pr q ext F M ctx st] show ?thesis
    by simp
qed

lemma noReference_Identifier_total:
  assumes "estree_ok h" and "type (h n) = ''Identifier''"
  shows "\<exists>rs. noReferenceDuringSSR_Identifier ext F M ctx h st n = Inr rs \<and> length rs \<le> 1"
proof -
  from shape_okD(2)[OF assms] obtain p where "parent (h n) = Some p" ..
  with noReference_Identifier_eval[of h n p ext F M ctx st] show ?thesis by simp
qed

lemma noPropertyAccess_MemberExpression_total:
  assumes "estree_ok h" and "type (h n) = ''MemberExpression''"
  shows "\<exists>rs. noPropertyAccessDuringSSR_MemberExpression names h st n = Inr rs \<and> length rs \<le> 1"
proof -
  from shape_okD(1)[OF assms] obtain ob pr where
    f: "object (h n) = Some ob" "property (h n) = Some pr" by blast
  with noPropertyAccess_MemberExpression_eval[of h n ob pr names st] show ?thesis by simp
qed

lemma noNodeEnv_MemberExpression_total:
  assumes "estree_ok h" and "type (h n) = ''MemberExpression''"
  shows "\<exists>rs. noNodeEnvInSSR_MemberExpression ctx h st n = Inr rs \<and> length rs \<le> 1"
proof -
  from shape_okD(1)[OF assms] obtain ob pr where
    f: "object (h n) = Some ob" "property (h n) = Some pr" by blast
  have "\<exists>q. type (h ob) = ''MemberExpression'' \<longrightarrow> property (h ob) = Some q"
    using shape_okD(1)[OF assms(1), of ob] by blast
  then obtain q where "type (h ob) = ''MemberExpression'' \<longrightarrow> property (h ob) = Some q" ..
  with f noNodeEnv_MemberExpression_eval[of h n ob pr q ctx st] show ?thesis by simp
qed


lemma run_total:
  assumes step: "\<And>ctx ev st out. moduleInfo st \<noteq> None \<Longrightarrow>
      \<exists>st' out'. listener ctx ev (st, out) = Inr (st', out') \<and> moduleInfo st' \<noteq> None"
    and "moduleInfo st \<noteq> None"
  shows "\<exists>s. run listener scopeOf anc evs (st, out) = Inr s"
  using assms(2)
proof (induction evs arbitrary: anc st out)
  case Nil
  then show ?case by simp
next
  case (Cons ev evs)
  show ?case
  proof (cases ev)
    case (Enter n)
    from step[OF Cons.prems, of "\<lparr>getAncestors = anc, getScope = scopeOf n\<rparr>" ev out]
    obtain st' out' where
      s: "listener \<lparr>getAncestors = anc, getScope = scopeOf n\<rparr> ev (st, out) = Inr (st', out')"
      and m: "moduleInfo st' \<noteq> None" by blast
    from Cons.IH[OF m, of "anc @ [n]" out'] s Enter show ?thesis by simp
  next
    case (Exit n)
    from step[OF Cons.prems, of "\<lparr>getAncestors = butlast anc, getScope = scopeOf n\<rparr>" ev out]
    obtain st' out' where
      s: "listener \<lparr>getAncestors = butlast anc, getScope = scopeOf n\<rparr> ev (st, out)
            = Inr (st', out')"
      and m: "moduleInfo st' \<noteq> None" by blast
    from Cons.IH[OF m, of "butlast anc" out'] s Exit show ?thesis by simp
  qed
qed

lemma noReferenceDuringSSR_step:
  assumes "estree_ok h" and "moduleInfo st \<noteq> None"
  shows "\<exists>st' out'. noReferenceDuringSSR ext F M h ctx ev (st, out) = Inr (st', out')
           \<and> moduleInfo st' \<noteq> None"
proof (cases ev)
  case (Enter n)
  consider (m) "type (h n) = ''MemberExpression''"
    | (i) "type (h n) \<noteq> ''MemberExpression''" "type (h n) = ''Identifier''"
    | (o) "type (h n) \<noteq> ''MemberExpression''" "type (h n) \<noteq> ''Identifier''" by blast
  then show ?thesis
  proof cases
    case m
    with noReference_MemberExpression_total[OF assms(1) m, of ext F M ctx st] Enter assms(2)
    show ?thesis by (auto simp: emit_def)
  next
    case i
    with noReference_Identifier_total[OF assms(1) i(2), of ext F M ctx st] Enter assms(2)
    show ?thesis by (auto simp: emit_def)
  next
    case o
    with withinLWCVisitors_total[OF assms, of ext ev] Enter show ?thesis
      by (auto simp: track_def)
  qed
next
  case (Exit n)
  with withinLWCVisitors_total[OF assms, of ext ev] show ?thesis by (auto simp: track_def)
qed

lemma noPropertyAccessDuringSSR_step:
  assumes "estree_ok h" and "moduleInfo st \<noteq> None"
  shows "\<exists>st' out'. noPropertyAccessDuringSSR ext names h ctx ev (st, out) = Inr (st', out')
           \<and> moduleInfo st' \<noteq> None"
proof (cases ev)
  case (Enter n)
  show ?thesis
  proof (cases "type (h n) = ''MemberExpression''")
    case True
    with noPropertyAccess_MemberExpression_total[OF assms(1) True, of names st] Enter assms(2)
    show ?thesis by (auto simp: emit_def)
  next
    case False
    with withinLWCVisitors_total[OF assms, of ext ev] Enter show ?thesis
      by (auto simp: track_def)
  qed
next
  case (Exit n)
  with withinLWCVisitors_total[OF assms, of ext ev] show ?thesis by (auto simp: track_def)
qed

lemma noNodeEnvInSSR_step:
  assumes "estree_ok h" and "moduleInfo st \<noteq> None"
  shows "\<exists>st' out'. noNodeEnvInSSR ext h ctx ev (st, out) = Inr (st', out')
           \<and> moduleInfo st' \<noteq> None"
proof (cases ev)
  case (Enter n)
  show ?thesis
  proof (cases "type (h n) = ''MemberExpression''")
    case True
    with noNodeEnv_MemberExpression_total[OF assms(1) True, of ctx st] Enter assms(2)
    show ?thesis by (auto simp: emit_def)
  next
    case False
    with withinLWCVisitors_total[OF assms, of ext ev] Enter show ?thesis
      by (auto simp: track_def)
  qed
next
  case (Exit n)
  with withinLWCVisitors_total[OF assms, of ext ev] show ?thesis by (auto simp: track_def)
qed

lemma Program_first:
  assumes "type (h root) = ''Program''"
  shows "withinLWCVisitors ext h (Enter root) st = Inr (st\<lparr>moduleInfo := Some (analyze ext root)\<rparr>)"
  using assms by (simp add: withinLWCVisitors.simps Program_def)

lemma estree_ok_heap_of:
  assumes "list_all shape_ok ns"
  shows "estree_ok (heap_of ns)"
  unfolding estree_ok_def
proof
  fix r
  show "shape_ok (heap_of ns r)"
  proof (cases "r < length ns")
    case True
    with assms show ?thesis by (simp add: heap_of_def list_all_length)
  next
    case False
    then show ?thesis by (simp add: heap_of_def shape_ok_def nd_def)
  qed
qed

lemma noReferenceDuringSSR_at_member:
  assumes "estree_ok h" and "type (h n) = ''MemberExpression''"
  shows "\<exists>rs. noReferenceDuringSSR ext F M h ctx (Enter n) (st, out) = Inr (st, out @ rs)
           \<and> length rs \<le> 1"
  using noReference_MemberExpression_total[OF assms, of ext F M ctx st] assms(2)
  by (auto simp: emit_def)

lemma noReferenceDuringSSR_at_identifier:
  assumes "estree_ok h" and "type (h n) = ''Identifier''"
  shows "\<exists>rs. noReferenceDuringSSR ext F M h ctx (Enter n) (st, out) = Inr (st, out @ rs)
           \<and> length rs \<le> 1"
  using noReference_Identifier_total[OF assms, of ext F M ctx st] assms(2)
  by (auto simp: emit_def)

lemma noPropertyAccessDuringSSR_at_member:
  assumes "estree_ok h" and "type (h n) = ''MemberExpression''"
  shows "\<exists>rs. noPropertyAccessDuringSSR ext names h ctx (Enter n) (st, out) = Inr (st, out @ rs)
           \<and> length rs \<le> 1"
  using noPropertyAccess_MemberExpression_total[OF assms, of names st] assms(2)
  by (auto simp: emit_def)

lemma noNodeEnvInSSR_at_member:
  assumes "estree_ok h" and "type (h n) = ''MemberExpression''"
  shows "\<exists>rs. noNodeEnvInSSR ext h ctx (Enter n) (st, out) = Inr (st, out @ rs)
           \<and> length rs \<le> 1"
  using noNodeEnv_MemberExpression_total[OF assms, of ctx st] assms(2)
  by (auto simp: emit_def)

section \<open>No callback raises\<close>

text \<open>
  Claim C10. On a syntax tree whose nodes carry the fields the format makes mandatory
  (whatever else their shape: identifiers without a name, functions without an
  identifier, properties and parents of any type), no callback raises: each callback of
  the three rules returns, leaving the tracker as it is and adding at most one violation
  to those reported; each handler of the tracker returns once the program node has been
  entered; and the traversal of any tree whose root is the program node runs to its end
  under each of the three rules.
\<close>

theorem callbacks_total:
  assumes "estree_ok h" and "type (h root) = ''Program''"
  shows "(\<forall>n ctx st out nodes. type (h n) = ''MemberExpression'' \<longrightarrow>
            (\<exists>rs. noReferenceDuringSSR ext F M h ctx (Enter n) (st, out) = Inr (st, out @ rs)
                  \<and> length rs \<le> 1)
          \<and> (\<exists>rs. noPropertyAccessDuringSSR ext names h ctx (Enter n) (st, nodes)
                    = Inr (st, nodes @ rs) \<and> length rs \<le> 1)
          \<and> (\<exists>rs. noNodeEnvInSSR ext h ctx (Enter n) (st, out) = Inr (st, out @ rs)
                  \<and> length rs \<le> 1))
       \<and> (\<forall>n ctx st out. type (h n) = ''Identifier'' \<longrightarrow>
            (\<exists>rs. noReferenceDuringSSR ext F M h ctx (Enter n) (st, out) = Inr (st, out @ rs)
                  \<and> length rs \<le> 1))
       \<and> (\<forall>ev st. moduleInfo st \<noteq> None \<longrightarrow> (\<exists>st'. withinLWCVisitors ext h ev st = Inr st'))
       \<and> (\<exists>s. run (noReferenceDuringSSR ext F M h) scopeOf [] (traverse (Tree root ts))
                 (reachableDuringSSRPartial, []) = Inr s)
       \<and> (\<exists>s. run (noPropertyAccessDuringSSR ext names h) scopeOf [] (traverse (Tree root ts))
                 (reachableDuringSSRPartial, []) = Inr s)
       \<and> (\<exists>s. run (noNodeEnvInSSR ext h) scopeOf [] (traverse (Tree root ts))
                 (reachableDuringSSRPartial, []) = Inr s)"
proof (intro conjI allI impI)
  fix ev and st :: tracker assume "moduleInfo st \<noteq> None"
  from withinLWCVisitors_total[OF assms(1) this, of ext ev]
  show "\<exists>st'. withinLWCVisitors ext h ev st = Inr st'" by blast
next
  let ?s1 = "reachableDuringSSRPartial\<lparr>moduleInfo := Some (analyze ext root)\<rparr>"
  have m: "moduleInfo ?s1 \<noteq> None" by simp
  have t: "type (h root) \<noteq> ''MemberExpression''" "type (h root) \<noteq> ''Identifier''"
    using assms(2) by simp_all
  let ?evs = "concat (map traverse ts) @ [Exit root]"
  from run_total[of "noReferenceDuringSSR ext F M h" ?s1 scopeOf "[root]" ?evs "[]"]
    noReferenceDuringSSR_step[OF assms(1)] m
  obtain s where "run (noReferenceDuringSSR ext F M h) scopeOf [root] ?evs (?s1, []) = Inr s"
    by blast
  with t assms(2) Program_first[of h root ext reachableDuringSSRPartial]
  show "\<exists>s. run (noReferenceDuringSSR ext F M h) scopeOf [] (traverse (Tree root ts))
                 (reachableDuringSSRPartial, []) = Inr s"
    by (simp add: track_def)
next
  let ?s1 = "reachableDuringSSRPartial\<lparr>moduleInfo := Some (analyze ext root)\<rparr>"
  have m: "moduleInfo ?s1 \<noteq> None" by simp
  have t: "type (h root) \<noteq> ''MemberExpression''"
    using assms(2) by simp_all
  let ?evs = "concat (map traverse ts) @ [Exit root]"
  from run_total[of "noPropertyAccessDuringSSR ext names h" ?s1 scopeOf "[root]" ?evs "[]"]
    noPropertyAccessDuringSSR_step[OF assms(1)] m
  obtain s where "run (noPropertyAccessDuringSSR ext names h) scopeOf [root] ?evs (?s1, []) = Inr s"
    by blast
  with t assms(2) Program_first[of h root ext reachableDuringSSRPartial]
  show "\<exists>s. run (noPropertyAccessDuringSSR ext names h) scopeOf [] (traverse (Tree root ts))
                 (reachableDuringSSRPartial, []) = Inr s"
    by (simp add: track_def)
next
  let ?s1 = "reachableDuringSSRPartial\<lparr>moduleInfo := Some (analyze ext root)\<rparr>"
  have m: "moduleInfo ?s1 \<noteq> None" by simp
  have t: "type (h root) \<noteq> ''MemberExpression''"
    using assms(2) by simp_all
  let ?evs = "concat (map traverse ts) @ [Exit root]"
  from run_total[of "noNodeEnvInSSR ext h" ?s1 scopeOf "[root]" ?evs "[]"]
    noNodeEnvInSSR_step[OF assms(1)] m
  obtain s where "run (noNodeEnvInSSR ext h) scopeOf [root] ?evs (?s1, []) = Inr s"
    by blast
  with t assms(2) Program_first[of h root ext reachableDuringSSRPartial]
  show "\<exists>s. run (noNodeEnvInSSR ext h) scopeOf [] (traverse (Tree root ts))
                 (reachableDuringSSRPartial, []) = Inr s"
    by (simp add: track_def)
qed (blast intro: noReferenceDuringSSR_at_member[OF assms(1)]
      noReferenceDuringSSR_at_identifier[OF assms(1)]
      noPropertyAccessDuringSSR_at_member[OF assms(1)]
      noNodeEnvInSSR_at_member[OF assms(1)])+

theorem callbacks_total_witness:
  "estree_ok (method_heap (chain ''globalThis'' ''document'' ''addEventListener'' None))
   \<and> type (method_heap (chain ''globalThis'' ''document'' ''addEventListener'' None) 0) = ''Program''
   \<and> (\<exists>s. run (noReferenceDuringSSR (method_ext True) {''document'', ''window''} [''A'', ''B'']
               (method_heap (chain ''globalThis'' ''document'' ''addEventListener'' None)))
             oneScope []
             (traverse (method_tree [Tree 8 [Tree 9 [Tree 10 [], Tree 11 []], Tree 12 []]]))
             (reachableDuringSSRPartial, []) = Inr s)"
proof -
  let ?h = "method_heap (chain ''globalThis'' ''document'' ''addEventListener'' None)"
  have ok: "estree_ok ?h"
    unfolding method_heap_def
    by (rule estree_ok_heap_of) (simp add: chain_def shape_ok_def nd_def ident_def)
  have ty: "type (?h 0) = ''Program''"
    by (simp add: method_heap_def heap_of_def nd_def)
  from callbacks_total[OF ok ty] ok ty show ?thesis
    unfolding method_tree_def by blast
qed

section \<open>The tracker along a traversal\<close>

text \<open>
  What follows relates the slots of the tracker to the place of a node in the tree. The
  events of a traversal nest like brackets (\<open>nested\<close>), the nodes entered and not yet left
  are the ancestors (\<open>ancestors_at\<close>), and \<open>tracked\<close> is what the tracker is known to hold
  at each place: the analysis of the module, slots that hold only ancestors, a skipped
  block that is a recognized guard, the flag of the component class when the class is an
  ancestor, and a function in the slot whenever a reachable function is an ancestor.
\<close>

subsection \<open>The effect of each event on each field\<close>

lemma enter_kinds:
  obtains (Program) "type (h n) = ''Program''"
      "withinLWCVisitors ext h (Enter n) st = Program ext st n"
  | (ClassDeclaration) "type (h n) = ''ClassDeclaration''"
      "withinLWCVisitors ext h (Enter n) st = ClassDeclaration st n"
  | (FunctionDeclaration) "type (h n) = ''FunctionDeclaration''"
      "withinLWCVisitors ext h (Enter n) st = FunctionDeclaration h st n"
  | (FunctionExpression) "type (h n) = ''FunctionExpression''"
      "withinLWCVisitors ext h (Enter n) st = FunctionExpression h st n"
  | (ArrowFunctionExpression) "type (h n) = ''ArrowFunctionExpression''"
      "withinLWCVisitors ext h (Enter n) st = ArrowFunctionExpression h st n"
  | (MethodDefinition) "type (h n) = ''MethodDefinition''"
      "withinLWCVisitors ext h (Enter n) st = MethodDefinition h st n"
  | (IfStatement) "type (h n) = ''IfStatement''"
      "withinLWCVisitors ext h (Enter n) st = IfStatement ext st n"
  | (Other) "type (h n) \<noteq> ''Program''" "type (h n) \<noteq> ''ClassDeclaration''"
      "type (h n) \<noteq> ''FunctionDeclaration''" "type (h n) \<noteq> ''FunctionExpression''"
      "type (h n) \<noteq> ''ArrowFunctionExpression''" "type (h n) \<noteq> ''MethodDefinition''"
      "type (h n) \<noteq> ''IfStatement''" "withinLWCVisitors ext h (Enter n) st = Inr st"
proof (cases rule: enter_dispatch[of h n ext st])
  case Other
  show ?thesis
  proof (cases "type (h n) = ''Program'' \<or> type (h n) = ''ClassDeclaration''
      \<or> type (h n) = ''FunctionDeclaration'' \<or> type (h n) = ''FunctionExpression''
      \<or> type (h n) = ''ArrowFunctionExpression'' \<or> type (h n) = ''MethodDefinition''
      \<or> type (h n) = ''IfStatement''")
    case True
    then show ?thesis
      using that(1-7)[unfolded withinLWCVisitors.simps] 
      by (elim disjE) (simp_all add: withinLWCVisitors.simps)
  next
    case False
    with Other that(8) show ?thesis by blast
  qed
qed (use that in blast)+


lemma exit_kinds:
  obtains (ClassDeclaration) "type (h n) = ''ClassDeclaration''"
      "withinLWCVisitors ext h (Exit n) st = ClassDeclaration_exit st n"
  | (FunctionDeclaration) "type (h n) = ''FunctionDeclaration''"
      "withinLWCVisitors ext h (Exit n) st = FunctionDeclaration_exit st n"
  | (FunctionExpression) "type (h n) = ''FunctionExpression''"
      "withinLWCVisitors ext h (Exit n) st = FunctionExpression_exit st n"
  | (ArrowFunctionExpression) "type (h n) = ''ArrowFunctionExpression''"
      "withinLWCVisitors ext h (Exit n) st = ArrowFunctionExpression_exit st n"
  | (MethodDefinition) "type (h n) = ''MethodDefinition''"
      "withinLWCVisitors ext h (Exit n) st = MethodDefinition_exit st"
  | (IfStatement) "type (h n) = ''IfStatement''"
      "withinLWCVisitors ext h (Exit n) st = IfStatement_exit st n"
  | (Other) "type (h n) \<noteq> ''ClassDeclaration''"
      "type (h n) \<notin> moduleScopeDisqualifiers" "type (h n) \<noteq> ''MethodDefinition''"
      "type (h n) \<noteq> ''IfStatement''" "withinLWCVisitors ext h (Exit n) st = Inr st"
proof (cases rule: exit_dispatch[of h n ext st])
  case Other
  show ?thesis
  proof (cases "type (h n) = ''ClassDeclaration''")
    case True
    then show ?thesis using that(1) by (simp add: withinLWCVisitors.simps)
  next
    case False
    with Other that(7) show ?thesis by blast
  qed
qed (use that in blast)+

lemma enter_moduleInfo:
  assumes "withinLWCVisitors ext h (Enter n) st = Inr st'"
  shows "moduleInfo st' = (if type (h n) = ''Program'' then Some (analyze ext n) else moduleInfo st)"
proof (cases rule: enter_kinds[of h n ext st])
  case Program
  with assms have "st' = st\<lparr>moduleInfo := Some (analyze ext n)\<rparr>"
    by (simp add: Program_def)
  with Program(1) show ?thesis by simp
next
  case ClassDeclaration
  with assms have "ClassDeclaration st n = Inr st'" by simp
  from ClassDeclaration_slots[OF this] ClassDeclaration(1) show ?thesis by auto
next
  case FunctionDeclaration
  with assms have "FunctionDeclaration h st n = Inr st'" by simp
  from FunctionDeclaration_slots[OF this] FunctionDeclaration(1) show ?thesis by auto
next
  case FunctionExpression
  with assms have "FunctionExpression h st n = Inr st'" by simp
  from FunctionExpression_slots[OF this] FunctionExpression(1) show ?thesis by auto
next
  case ArrowFunctionExpression
  with assms have "ArrowFunctionExpression h st n = Inr st'" by simp
  from ArrowFunctionExpression_slots[OF this] ArrowFunctionExpression(1) show ?thesis by auto
next
  case MethodDefinition
  with assms have "MethodDefinition h st n = Inr st'" by simp
  from MethodDefinition_slots[OF this] MethodDefinition(1) show ?thesis by auto
next
  case IfStatement
  with assms have "IfStatement ext st n = Inr st'" by simp
  from IfStatement_slots[OF this] IfStatement(1) show ?thesis by auto
next
  case Other
  with assms show ?thesis by simp
qed

lemma exit_moduleInfo:
  assumes "withinLWCVisitors ext h (Exit n) st = Inr st'"
  shows "moduleInfo st' = moduleInfo st"
proof (cases rule: exit_kinds[of h n ext st])
  case ClassDeclaration
  with assms have "ClassDeclaration_exit st n = Inr st'" by simp
  from ClassDeclaration_exit_slots[OF this] show ?thesis by auto
next
  case FunctionDeclaration
  with assms have "FunctionDeclaration_exit st n = Inr st'" by simp
  from FunctionDeclaration_exit_slots[OF this] show ?thesis by auto
next
  case FunctionExpression
  with assms have "FunctionExpression_exit st n = Inr st'" by simp
  from FunctionExpression_exit_slots[OF this] show ?thesis by auto
next
  case ArrowFunctionExpression
  with assms have "ArrowFunctionExpression_exit st n = Inr st'" by simp
  from ArrowFunctionExpression_exit_slots[OF this] show ?thesis by auto
next
  case MethodDefinition
  with assms have "MethodDefinition_exit st = Inr st'" by simp
  from MethodDefinition_exit_slots[OF this] show ?thesis by auto
next
  case IfStatement
  with assms have "IfStatement_exit st n = Inr st'" by simp
  from IfStatement_exit_slots[OF this] show ?thesis by auto
next
  case Other
  with assms show ?thesis by simp
qed

lemma ClassDeclaration_flag:
  assumes "ClassDeclaration st n = Inr st'" and "moduleInfo st = Some mi"
  shows "insideLWC st' = (insideLWC st \<or> lwcClassDeclaration mi = Some n)"
  using assms
  by (auto simp: ClassDeclaration_def readInfo_def eqE_def doWhen_def split: if_splits)

lemma ClassDeclaration_exit_flag:
  assumes "ClassDeclaration_exit st n = Inr st'" and "moduleInfo st = Some mi"
  shows "insideLWC st' = (insideLWC st \<and> lwcClassDeclaration mi \<noteq> Some n)"
  using assms
  by (auto simp: ClassDeclaration_exit_def readInfo_def eqE_def doWhen_def split: if_splits)

lemma enter_insideLWC:
  assumes "withinLWCVisitors ext h (Enter n) st = Inr st'" and "moduleInfo st = Some mi"
  shows "insideLWC st' =
     (insideLWC st \<or> (type (h n) = ''ClassDeclaration'' \<and> lwcClassDeclaration mi = Some n))"
proof (cases rule: enter_kinds[of h n ext st])
  case Program
  with assms have "st' = st\<lparr>moduleInfo := Some (analyze ext n)\<rparr>"
    by (simp add: Program_def)
  with Program(1) show ?thesis by simp
next
  case ClassDeclaration
  with assms have "ClassDeclaration st n = Inr st'" by simp
  from ClassDeclaration_flag[OF this assms(2)] ClassDeclaration(1) show ?thesis by simp
next
  case FunctionDeclaration
  with assms have "FunctionDeclaration h st n = Inr st'" by simp
  from FunctionDeclaration_slots[OF this] FunctionDeclaration(1) show ?thesis by auto
next
  case FunctionExpression
  with assms have "FunctionExpression h st n = Inr st'" by simp
  from FunctionExpression_slots[OF this] FunctionExpression(1) show ?thesis by auto
next
  case ArrowFunctionExpression
  with assms have "ArrowFunctionExpression h st n = Inr st'" by simp
  from ArrowFunctionExpression_slots[OF this] ArrowFunctionExpression(1) show ?thesis by auto
next
  case MethodDefinition
  with assms have "MethodDefinition h st n = Inr st'" by simp
  from MethodDefinition_slots[OF this] MethodDefinition(1) show ?thesis by auto
next
  case IfStatement
  with assms have "IfStatement ext st n = Inr st'" by simp
  from IfStatement_slots[OF this] IfStatement(1) show ?thesis by auto
next
  case Other
  with assms show ?thesis by simp
qed

lemma exit_insideLWC:
  assumes "withinLWCVisitors ext h (Exit n) st = Inr st'" and "moduleInfo st = Some mi"
  shows "insideLWC st' =
     (insideLWC st \<and> \<not> (type (h n) = ''ClassDeclaration'' \<and> lwcClassDeclaration mi = Some n))"
proof (cases rule: exit_kinds[of h n ext st])
  case ClassDeclaration
  with assms have "ClassDeclaration_exit st n = Inr st'" by simp
  from ClassDeclaration_exit_flag[OF this assms(2)] ClassDeclaration(1) show ?thesis by simp
next
  case FunctionDeclaration
  with assms have "FunctionDeclaration_exit st n = Inr st'" by simp
  from FunctionDeclaration_exit_slots[OF this] FunctionDeclaration(1) show ?thesis by auto
next
  case FunctionExpression
  with assms have "FunctionExpression_exit st n = Inr st'" by simp
  from FunctionExpression_exit_slots[OF this] FunctionExpression(1) show ?thesis by auto
next
  case ArrowFunctionExpression
  with assms have "ArrowFunctionExpression_exit st n = Inr st'" by simp
  from ArrowFunctionExpression_exit_slots[OF this] ArrowFunctionExpression(1) show ?thesis by auto
next
  case MethodDefinition
  with assms have "MethodDefinition_exit st = Inr st'" by simp
  from MethodDefinition_exit_slots[OF this] MethodDefinition(1) show ?thesis by auto
next
  case IfStatement
  with assms have "IfStatement_exit st n = Inr st'" by simp
  from IfStatement_exit_slots[OF this] IfStatement(1) show ?thesis by auto
next
  case Other
  with assms show ?thesis by simp
qed

lemma reachableName_None: "\<not> reachableName st None"
  by (simp add: reachableName_def has_def split: option.splits)

lemma enter_function:
  assumes "withinLWCVisitors ext h (Enter n) st = Inr st'"
  shows "reachableFunctionThatWeAreIn st' =
     (if reachableFunctionThatWeAreIn st = None \<and> reachableName st (functionName h n)
      then Some n else reachableFunctionThatWeAreIn st)"
proof (cases rule: enter_kinds[of h n ext st])
  case Program
  with assms have "st' = st\<lparr>moduleInfo := Some (analyze ext n)\<rparr>"
    by (simp add: Program_def)
  with Program(1) show ?thesis by (simp add: functionName_def reachableName_None)
next
  case ClassDeclaration
  with assms have "ClassDeclaration st n = Inr st'" by simp
  from ClassDeclaration_slots[OF this] ClassDeclaration(1) show ?thesis
    by (auto simp: functionName_def reachableName_None)
next
  case FunctionDeclaration
  with assms have "FunctionDeclaration h st n = Inr st'" by simp
  from FunctionDeclaration_slot[OF this] FunctionDeclaration(1) show ?thesis
    by (simp add: functionName_def)
next
  case FunctionExpression
  with assms have "FunctionExpression h st n = Inr st'" by simp
  from FunctionExpression_slot[OF this] FunctionExpression(1) show ?thesis
    by (simp add: functionName_def)
next
  case ArrowFunctionExpression
  with assms have "ArrowFunctionExpression h st n = Inr st'" by simp
  from ArrowFunctionExpression_slot[OF this] ArrowFunctionExpression(1) show ?thesis
    by (simp add: functionName_def)
next
  case MethodDefinition
  with assms have "MethodDefinition h st n = Inr st'" by simp
  from MethodDefinition_slots[OF this] MethodDefinition(1) show ?thesis
    by (auto simp: functionName_def reachableName_None)
next
  case IfStatement
  with assms have "IfStatement ext st n = Inr st'" by simp
  from IfStatement_slots[OF this] IfStatement(1) show ?thesis
    by (auto simp: functionName_def reachableName_None)
next
  case Other
  with assms show ?thesis by (simp add: functionName_def reachableName_None)
qed

lemma exit_function:
  assumes "withinLWCVisitors ext h (Exit n) st = Inr st'"
  shows "reachableFunctionThatWeAreIn st' = reachableFunctionThatWeAreIn st
       \<or> (reachableFunctionThatWeAreIn st = Some n \<and> reachableFunctionThatWeAreIn st' = None)"
proof (cases rule: exit_kinds[of h n ext st])
  case ClassDeclaration
  with assms have "ClassDeclaration_exit st n = Inr st'" by simp
  from ClassDeclaration_exit_slots[OF this] show ?thesis by auto
next
  case FunctionDeclaration
  with assms have "FunctionDeclaration_exit st n = Inr st'" by simp
  from FunctionDeclaration_exit_slots[OF this] show ?thesis by auto
next
  case FunctionExpression
  with assms have "FunctionExpression_exit st n = Inr st'" by simp
  from FunctionExpression_exit_slots[OF this] show ?thesis by auto
next
  case ArrowFunctionExpression
  with assms have "ArrowFunctionExpression_exit st n = Inr st'" by simp
  from ArrowFunctionExpression_exit_slots[OF this] show ?thesis by auto
next
  case MethodDefinition
  with assms have "MethodDefinition_exit st = Inr st'" by simp
  from MethodDefinition_exit_slots[OF this] show ?thesis by auto
next
  case IfStatement
  with assms have "IfStatement_exit st n = Inr st'" by simp
  from IfStatement_exit_slots[OF this] show ?thesis by auto
next
  case Other
  with assms show ?thesis by simp
qed

lemma MethodDefinition_recorded:
  assumes "MethodDefinition h st n = Inr st'" and "insideLWC st"
    and "moduleInfo st = Some mi" and "key (h n) = Some k" and "type (h k) = ''Identifier''"
    and "has (methodsReachableDuringSSR mi) (name (h k))"
  shows "reachableMethodThatWeAreIn st' = Some n"
  using assms
  by (auto simp: MethodDefinition_def this_def field_def bindE_def eqE_def testE_def
      readInfo_def doWhen_def)

lemma enter_method:
  assumes "withinLWCVisitors ext h (Enter n) st = Inr st'"
  shows "reachableMethodThatWeAreIn st' = reachableMethodThatWeAreIn st
       \<or> reachableMethodThatWeAreIn st' = Some n"
proof (cases rule: enter_kinds[of h n ext st])
  case Program
  with assms have "st' = st\<lparr>moduleInfo := Some (analyze ext n)\<rparr>"
    by (simp add: Program_def)
  then show ?thesis by simp
next
  case ClassDeclaration
  with assms have "ClassDeclaration st n = Inr st'" by simp
  from ClassDeclaration_slots[OF this] show ?thesis by auto
next
  case FunctionDeclaration
  with assms have "FunctionDeclaration h st n = Inr st'" by simp
  from FunctionDeclaration_slots[OF this] show ?thesis by auto
next
  case FunctionExpression
  with assms have "FunctionExpression h st n = Inr st'" by simp
  from FunctionExpression_slots[OF this] show ?thesis by auto
next
  case ArrowFunctionExpression
  with assms have "ArrowFunctionExpression h st n = Inr st'" by simp
  from ArrowFunctionExpression_slots[OF this] show ?thesis by auto
next
  case MethodDefinition
  with assms have "MethodDefinition h st n = Inr st'" by simp
  from MethodDefinition_slots[OF this] show ?thesis by auto
next
  case IfStatement
  with assms have "IfStatement ext st n = Inr st'" by simp
  from IfStatement_slots[OF this] show ?thesis by auto
next
  case Other
  with assms show ?thesis by simp
qed

lemma exit_method:
  assumes "withinLWCVisitors ext h (Exit n) st = Inr st'"
    and "type (h n) \<noteq> ''MethodDefinition''"
  shows "reachableMethodThatWeAreIn st' = reachableMethodThatWeAreIn st"
proof (cases rule: exit_kinds[of h n ext st])
  case ClassDeclaration
  with assms have "ClassDeclaration_exit st n = Inr st'" by simp
  from ClassDeclaration_exit_slots[OF this] show ?thesis by auto
next
  case FunctionDeclaration
  with assms have "FunctionDeclaration_exit st n = Inr st'" by simp
  from FunctionDeclaration_exit_slots[OF this] show ?thesis by auto
next
  case FunctionExpression
  with assms have "FunctionExpression_exit st n = Inr st'" by simp
  from FunctionExpression_exit_slots[OF this] show ?thesis by auto
next
  case ArrowFunctionExpression
  with assms have "ArrowFunctionExpression_exit st n = Inr st'" by simp
  from ArrowFunctionExpression_exit_slots[OF this] show ?thesis by auto
next
  case MethodDefinition
  with assms show ?thesis by simp
next
  case IfStatement
  with assms have "IfStatement_exit st n = Inr st'" by simp
  from IfStatement_exit_slots[OF this] show ?thesis by auto
next
  case Other
  with assms show ?thesis by simp
qed

lemma enter_skipped:
  assumes "withinLWCVisitors ext h (Enter n) st = Inr st'"
  shows "skippedBlockThatWeAreIn st' = skippedBlockThatWeAreIn st
       \<or> (skippedBlockThatWeAreIn st' = Some n \<and> isSSREscape ext n)"
proof (cases rule: enter_kinds[of h n ext st])
  case Program
  with assms have "st' = st\<lparr>moduleInfo := Some (analyze ext n)\<rparr>"
    by (simp add: Program_def)
  then show ?thesis by simp
next
  case ClassDeclaration
  with assms have "ClassDeclaration st n = Inr st'" by simp
  from ClassDeclaration_slots[OF this] show ?thesis by auto
next
  case FunctionDeclaration
  with assms have "FunctionDeclaration h st n = Inr st'" by simp
  from FunctionDeclaration_slots[OF this] show ?thesis by auto
next
  case FunctionExpression
  with assms have "FunctionExpression h st n = Inr st'" by simp
  from FunctionExpression_slots[OF this] show ?thesis by auto
next
  case ArrowFunctionExpression
  with assms have "ArrowFunctionExpression h st n = Inr st'" by simp
  from ArrowFunctionExpression_slots[OF this] show ?thesis by auto
next
  case MethodDefinition
  with assms have "MethodDefinition h st n = Inr st'" by simp
  from MethodDefinition_slots[OF this] show ?thesis by auto
next
  case IfStatement
  with assms have "IfStatement ext st n = Inr st'" by simp
  then show ?thesis by (auto simp: IfStatement_def split: if_splits)
next
  case Other
  with assms show ?thesis by simp
qed

lemma exit_skipped:
  assumes "withinLWCVisitors ext h (Exit n) st = Inr st'"
  shows "skippedBlockThatWeAreIn st' = skippedBlockThatWeAreIn st
       \<or> skippedBlockThatWeAreIn st' = None"
proof (cases rule: exit_kinds[of h n ext st])
  case ClassDeclaration
  with assms have "ClassDeclaration_exit st n = Inr st'" by simp
  from ClassDeclaration_exit_slots[OF this] show ?thesis by auto
next
  case FunctionDeclaration
  with assms have "FunctionDeclaration_exit st n = Inr st'" by simp
  from FunctionDeclaration_exit_slots[OF this] show ?thesis by auto
next
  case FunctionExpression
  with assms have "FunctionExpression_exit st n = Inr st'" by simp
  from FunctionExpression_exit_slots[OF this] show ?thesis by auto
next
  case ArrowFunctionExpression
  with assms have "ArrowFunctionExpression_exit st n = Inr st'" by simp
  from ArrowFunctionExpression_exit_slots[OF this] show ?thesis by auto
next
  case MethodDefinition
  with assms have "MethodDefinition_exit st = Inr st'" by simp
  from MethodDefinition_exit_slots[OF this] show ?thesis by auto
next
  case IfStatement
  with assms have "IfStatement_exit st n = Inr st'" by simp
  from IfStatement_exit_slots[OF this] show ?thesis by auto
next
  case Other
  with assms show ?thesis by simp
qed

subsection \<open>The invariant, and the shape of a traversal\<close>

lemma reachableName_tracked:
  "moduleInfo st = Some (analyze ext root) \<Longrightarrow>
     reachableName st (functionName h n) = reachableFunction ext h root n"
  by (simp add: reachableName_def reachableFunction_def)

lemma tracked_enter:
  assumes t: "tracked ext h root anc st"
    and s: "withinLWCVisitors ext h (Enter n) st = Inr st'"
    and n: "n \<notin> set anc" and p: "type (h n) = ''Program'' \<longrightarrow> n = root"
  shows "tracked ext h root (anc @ [n]) st'"
proof -
  from t have d: "distinct anc" and mi: "moduleInfo st = Some (analyze ext root)"
    and c: "contained h (set anc) st"
    and g: "\<forall>g. skippedBlockThatWeAreIn st = Some g \<longrightarrow> isSSREscape ext g"
    and l: "inComponentClass ext h root anc \<longrightarrow> insideLWC st"
    and f: "\<forall>xs f ys. anc = xs @ f # ys \<and> reachableFunction ext h root f \<longrightarrow>
            (\<exists>g. reachableFunctionThatWeAreIn st = Some g \<and> g \<in> set (xs @ [f]))"
    unfolding tracked_def by blast+
  have 1: "distinct (anc @ [n])" using d n by simp
  have 2: "moduleInfo st' = Some (analyze ext root)"
    using enter_moduleInfo[OF s] mi p by auto
  have 3: "contained h (set (anc @ [n])) st'"
    using enter_contained[OF s c] by simp
  have 4: "\<forall>g. skippedBlockThatWeAreIn st' = Some g \<longrightarrow> isSSREscape ext g"
    using enter_skipped[OF s] g by auto
  have 5: "inComponentClass ext h root (anc @ [n]) \<longrightarrow> insideLWC st'"
    using enter_insideLWC[OF s mi] l
    by (auto simp: inComponentClass_def split: option.splits)
  have 6: "\<exists>g. reachableFunctionThatWeAreIn st' = Some g \<and> g \<in> set (xs @ [f])"
    if a: "anc @ [n] = xs @ f # ys" and r: "reachableFunction ext h root f" for xs f ys
  proof (cases ys rule: rev_cases)
    case Nil
    with a have e: "f = n" "xs = anc" by simp_all
    show ?thesis
    proof (cases "reachableFunctionThatWeAreIn st")
      case None
      with enter_function[OF s] reachableName_tracked[OF mi, of h n] r e show ?thesis by simp
    next
      case (Some g0)
      with containedD(1)[OF c, of g0] have "g0 \<in> set anc" by simp
      with enter_function[OF s] Some e show ?thesis by simp
    qed
  next
    case (snoc ys' y)
    with a have "anc = xs @ f # ys'" by simp
    with f r obtain g0 where "reachableFunctionThatWeAreIn st = Some g0" "g0 \<in> set (xs @ [f])"
      by blast
    with enter_function[OF s] show ?thesis by simp
  qed
  from 1 2 3 4 5 6 show ?thesis unfolding tracked_def by blast
qed

lemma tracked_exit:
  assumes t: "tracked ext h root anc st"
    and s: "withinLWCVisitors ext h (Exit n) st = Inr st'"
    and a: "anc \<noteq> []" and n: "last anc = n"
  shows "tracked ext h root (butlast anc) st'"
proof -
  from t have d: "distinct anc" and mi: "moduleInfo st = Some (analyze ext root)"
    and c: "contained h (set anc) st"
    and g: "\<forall>g. skippedBlockThatWeAreIn st = Some g \<longrightarrow> isSSREscape ext g"
    and l: "inComponentClass ext h root anc \<longrightarrow> insideLWC st"
    and f: "\<forall>xs f ys. anc = xs @ f # ys \<and> reachableFunction ext h root f \<longrightarrow>
            (\<exists>g. reachableFunctionThatWeAreIn st = Some g \<and> g \<in> set (xs @ [f]))"
    unfolding tracked_def by blast+
  from a n have e: "anc = butlast anc @ [n]" by (metis append_butlast_last_id)
  with d have nz: "n \<notin> set (butlast anc)" by (metis distinct_append distinct.simps(2) disjoint_iff list.set_intros(1))
  have sz: "set anc - {n} = set (butlast anc)"
    using e nz by (metis Diff_insert_absorb list.simps(15) rotate1.simps(2) set_rotate1)
  have 1: "distinct (butlast anc)" using d by (simp add: distinct_butlast)
  have 2: "moduleInfo st' = Some (analyze ext root)"
    using exit_moduleInfo[OF s] mi by simp
  have 3: "contained h (set (butlast anc)) st'"
    using exit_contained[OF s c] sz by simp
  have 4: "\<forall>g. skippedBlockThatWeAreIn st' = Some g \<longrightarrow> isSSREscape ext g"
    using exit_skipped[OF s] g by auto
  have 5: "inComponentClass ext h root (butlast anc) \<longrightarrow> insideLWC st'"
  proof
    assume i: "inComponentClass ext h root (butlast anc)"
    then obtain cl where cl: "lwcClassDeclaration (analyze ext root) = Some cl"
      "cl \<in> set (butlast anc)" "type (h cl) = ''ClassDeclaration''"
      by (auto simp: inComponentClass_def split: option.splits)
    with nz have "cl \<noteq> n" by blast
    moreover from cl have "inComponentClass ext h root anc"
      by (auto simp: inComponentClass_def dest: in_set_butlastD)
    ultimately show "insideLWC st'" using exit_insideLWC[OF s mi] l cl(1) by simp
  qed
  have 6: "\<exists>g. reachableFunctionThatWeAreIn st' = Some g \<and> g \<in> set (xs @ [f])"
    if b: "butlast anc = xs @ f # ys" and r: "reachableFunction ext h root f" for xs f ys
  proof -
    from e b have "anc = xs @ f # (ys @ [n])" by simp
    with f r obtain g0 where g0: "reachableFunctionThatWeAreIn st = Some g0" "g0 \<in> set (xs @ [f])"
      by blast
    with b have "g0 \<in> set (butlast anc)" by auto
    with nz have "g0 \<noteq> n" by blast
    with exit_function[OF s] g0 show ?thesis by auto
  qed
  from 1 2 3 4 5 6 show ?thesis unfolding tracked_def by blast
qed

lemma follows_trackerD:
  "follows_tracker ext h L \<Longrightarrow> L ctx ev (st, out) = Inr (st', out')
     \<Longrightarrow> withinLWCVisitors ext h ev st = Inr st'"
  unfolding follows_tracker_def by blast

lemma run_tracked:
  assumes ft: "follows_tracker ext h L"
  shows "nested anc evs \<Longrightarrow> \<forall>r. Enter r \<in> set evs \<longrightarrow> type (h r) = ''Program'' \<longrightarrow> r = root
     \<Longrightarrow> tracked ext h root anc st \<Longrightarrow> run L sc anc evs (st, out) = Inr (st', out')
     \<Longrightarrow> tracked ext h root (ancestors_at anc evs) st'"
proof (induction evs arbitrary: anc st out)
  case Nil
  then show ?case by simp
next
  case (Cons ev evs)
  show ?case
  proof (cases ev)
    case (Enter n)
    with Cons.prems(4) obtain s1 o1 where
      s1: "L \<lparr>getAncestors = anc, getScope = sc n\<rparr> (Enter n) (st, out) = Inr (s1, o1)"
      and r: "run L sc (anc @ [n]) evs (s1, o1) = Inr (st', out')"
      by (auto split: sum.splits)
    from Cons.prems(1) Enter have n: "n \<notin> set anc" "nested (anc @ [n]) evs" by simp_all
    from Cons.prems(2) Enter have p: "type (h n) = ''Program'' \<longrightarrow> n = root"
      "\<forall>r. Enter r \<in> set evs \<longrightarrow> type (h r) = ''Program'' \<longrightarrow> r = root" by simp_all
    from tracked_enter[OF Cons.prems(3) follows_trackerD[OF ft s1] n(1) p(1)]
    have "tracked ext h root (anc @ [n]) s1" .
    from Cons.IH[OF n(2) p(2) this r] Enter show ?thesis by simp
  next
    case (Exit n)
    with Cons.prems(4) obtain s1 o1 where
      s1: "L \<lparr>getAncestors = butlast anc, getScope = sc n\<rparr> (Exit n) (st, out) = Inr (s1, o1)"
      and r: "run L sc (butlast anc) evs (s1, o1) = Inr (st', out')"
      by (auto split: sum.splits)
    from Cons.prems(1) Exit have n: "anc \<noteq> []" "last anc = n" "nested (butlast anc) evs"
      by simp_all
    from Cons.prems(2) Exit
    have p: "\<forall>r. Enter r \<in> set evs \<longrightarrow> type (h r) = ''Program'' \<longrightarrow> r = root" by simp
    from tracked_exit[OF Cons.prems(3) follows_trackerD[OF ft s1] n(1,2)]
    have "tracked ext h root (butlast anc) s1" .
    from Cons.IH[OF n(3) p this r] Exit show ?thesis by simp
  qed
qed

lemma run_method_kept:
  assumes ft: "follows_tracker ext h L"
  shows "\<not> list_ex (leavesMethod h) evs \<Longrightarrow> reachableMethodThatWeAreIn st \<noteq> None
     \<Longrightarrow> run L sc anc evs (st, out) = Inr (st', out')
     \<Longrightarrow> reachableMethodThatWeAreIn st' \<noteq> None"
proof (induction evs arbitrary: anc st out)
  case Nil
  then show ?case by simp
next
  case (Cons ev evs)
  show ?case
  proof (cases ev)
    case (Enter n)
    with Cons.prems(3) obtain s1 o1 where
      s1: "L \<lparr>getAncestors = anc, getScope = sc n\<rparr> (Enter n) (st, out) = Inr (s1, o1)"
      and r: "run L sc (anc @ [n]) evs (s1, o1) = Inr (st', out')"
      by (auto split: sum.splits)
    from enter_method[OF follows_trackerD[OF ft s1]] Cons.prems(2)
    have "reachableMethodThatWeAreIn s1 \<noteq> None" by auto
    from Cons.IH[OF _ this r] Cons.prems(1) show ?thesis by simp
  next
    case (Exit n)
    with Cons.prems(3) obtain s1 o1 where
      s1: "L \<lparr>getAncestors = butlast anc, getScope = sc n\<rparr> (Exit n) (st, out) = Inr (s1, o1)"
      and r: "run L sc (butlast anc) evs (s1, o1) = Inr (st', out')"
      by (auto split: sum.splits)
    from Cons.prems(1) Exit have "type (h n) \<noteq> ''MethodDefinition''" by simp
    from exit_method[OF follows_trackerD[OF ft s1] this] Cons.prems(2)
    have "reachableMethodThatWeAreIn s1 \<noteq> None" by simp
    from Cons.IH[OF _ this r] Cons.prems(1) show ?thesis by simp
  qed
qed

lemma run_append:
  "run L sc anc (xs @ ys) s =
     (case run L sc anc xs s of Inl e \<Rightarrow> Inl e | Inr s' \<Rightarrow> run L sc (ancestors_at anc xs) ys s')"
proof (induction xs arbitrary: anc s)
  case Nil
  then show ?case by simp
next
  case (Cons ev xs)
  then show ?case by (cases ev) (simp_all split: sum.splits)
qed

lemma ancestors_at_append:
  "ancestors_at anc (xs @ ys) = ancestors_at (ancestors_at anc xs) ys"
  by (induction anc xs rule: ancestors_at.induct) simp_all

lemma nested_append:
  "nested anc (xs @ ys) = (nested anc xs \<and> nested (ancestors_at anc xs) ys)"
  by (induction anc xs rule: nested.induct) auto

lemma ancestors_at_children:
  assumes "\<And>c anc. c \<in> set cs \<Longrightarrow> ancestors_at anc (traverse c) = anc"
  shows "ancestors_at anc (concat (map traverse cs)) = anc"
  using assms by (induction cs arbitrary: anc) (simp_all add: ancestors_at_append)

lemma ancestors_at_traverse: "ancestors_at anc (traverse t) = anc"
proof (induction t arbitrary: anc)
  case (Tree n cs)
  show ?case
    by (simp add: ancestors_at_append ancestors_at_children[OF Tree.IH])
qed

lemma nested_children:
  assumes "\<And>c anc. c \<in> set cs \<Longrightarrow> distinct (nodes_list c) \<Longrightarrow> set (nodes_list c) \<inter> set anc = {}
      \<Longrightarrow> nested anc (traverse c)"
    and "distinct (concat (map nodes_list cs))"
    and "set (concat (map nodes_list cs)) \<inter> set anc = {}"
  shows "nested anc (concat (map traverse cs))"
  using assms
proof (induction cs)
  case Nil
  then show ?case by simp
next
  case (Cons c cs)
  have 1: "nested anc (traverse c)"
    using Cons.prems by (intro Cons.prems(1)) auto
  have 2: "nested anc (concat (map traverse cs))"
    using Cons.prems by (intro Cons.IH) auto
  from 1 2 show ?case by (simp add: nested_append ancestors_at_traverse)
qed

lemma nested_traverse:
  "distinct (nodes_list t) \<Longrightarrow> set (nodes_list t) \<inter> set anc = {} \<Longrightarrow> nested anc (traverse t)"
proof (induction t arbitrary: anc)
  case (Tree n cs)
  have "nested (anc @ [n]) (concat (map traverse cs))"
    using Tree.prems by (intro nested_children Tree.IH) auto
  with Tree.prems show ?case
    by (simp add: nested_append ancestors_at_append ancestors_at_children[OF ancestors_at_traverse])
qed

lemma Enter_children:
  assumes "\<And>c. c \<in> set cs \<Longrightarrow> Enter r \<in> set (traverse c) \<Longrightarrow> r \<in> set (nodes_list c)"
    and "Enter r \<in> set (concat (map traverse cs))"
  shows "r \<in> set (concat (map nodes_list cs))"
  using assms by auto

lemma Enter_traverse: "Enter r \<in> set (traverse t) \<Longrightarrow> r \<in> set (nodes_list t)"
proof (induction t)
  case (Tree n cs)
  then show ?case by auto
qed

lemma stack_kept:
  "nested (xs @ m # ys) d \<Longrightarrow> Exit m \<notin> set d
     \<Longrightarrow> \<exists>ys'. ancestors_at (xs @ m # ys) d = xs @ m # ys'"
proof (induction d arbitrary: ys)
  case Nil
  then show ?case by simp
next
  case (Cons ev d)
  show ?case
  proof (cases ev)
    case (Enter n)
    with Cons.prems have "nested (xs @ m # (ys @ [n])) d" "Exit m \<notin> set d" by simp_all
    from Cons.IH[OF this] Enter show ?thesis by simp
  next
    case (Exit n)
    with Cons.prems have l: "last (xs @ m # ys) = n" and nm: "n \<noteq> m"
      and ne: "nested (butlast (xs @ m # ys)) d" and "Exit m \<notin> set d" by auto
    from l nm have "ys \<noteq> []" by (cases ys) auto
    then have "butlast (xs @ m # ys) = xs @ m # butlast ys" by (simp add: butlast_append)
    with ne have "nested (xs @ m # butlast ys) d" by simp
    from Cons.IH[OF this \<open>Exit m \<notin> set d\<close>] Exit \<open>butlast (xs @ m # ys) = xs @ m # butlast ys\<close>
    show ?thesis by simp
  qed
qed

subsection \<open>The rules follow the tracker\<close>

lemma noReferenceDuringSSR_tracker_step:
  assumes "noReferenceDuringSSR ext F M h ctx ev (st, out) = Inr (st', out')"
  shows "withinLWCVisitors ext h ev st = Inr st'"
proof (cases ev)
  case (Enter n)
  consider (m) "type (h n) = ''MemberExpression''"
    | (i) "type (h n) \<noteq> ''MemberExpression''" "type (h n) = ''Identifier''"
    | (o) "type (h n) \<noteq> ''MemberExpression''" "type (h n) \<noteq> ''Identifier''" by blast
  then show ?thesis
  proof cases
    case m
    with assms Enter have "st' = st" by (auto simp: emit_def split: sum.splits)
    with m Enter show ?thesis by (simp add: withinLWCVisitors.simps)
  next
    case i
    with assms Enter have "st' = st" by (auto simp: emit_def split: sum.splits)
    with i Enter show ?thesis by (simp add: withinLWCVisitors.simps)
  next
    case o
    with assms Enter show ?thesis by (auto simp: track_def split: sum.splits)
  qed
next
  case (Exit n)
  with assms show ?thesis by (auto simp: track_def split: sum.splits)
qed

lemma noReferenceDuringSSR_tracker: "follows_tracker ext h (noReferenceDuringSSR ext F M h)"
  unfolding follows_tracker_def by (blast intro: noReferenceDuringSSR_tracker_step)

lemma noReferenceDuringSSR_traverse_total:
  assumes "estree_ok h" and "type (h root) = ''Program''"
  shows "\<exists>s. run (noReferenceDuringSSR ext F M h) scopeOf [] (traverse (Tree root ts))
                 (reachableDuringSSRPartial, []) = Inr s"
proof -
  let ?s1 = "reachableDuringSSRPartial\<lparr>moduleInfo := Some (analyze ext root)\<rparr>"
  have m: "moduleInfo ?s1 \<noteq> None" by simp
  have t: "type (h root) \<noteq> ''MemberExpression''" "type (h root) \<noteq> ''Identifier''"
    using assms(2) by simp_all
  let ?evs = "concat (map traverse ts) @ [Exit root]"
  from run_total[of "noReferenceDuringSSR ext F M h" ?s1 scopeOf "[root]" ?evs "[]"]
    noReferenceDuringSSR_step[OF assms(1)] m
  obtain s where "run (noReferenceDuringSSR ext F M h) scopeOf [root] ?evs (?s1, []) = Inr s"
    by blast
  with t assms(2) Program_first[of h root ext reachableDuringSSRPartial]
  show ?thesis by (simp add: track_def)
qed

lemma tracked_start:
  assumes "type (h root) = ''Program''"
  shows "tracked ext h root [root]
     (reachableDuringSSRPartial\<lparr>moduleInfo := Some (analyze ext root)\<rparr>)"
proof -
  have "\<not> reachableFunction ext h root root"
    using assms by (simp add: reachableFunction_def functionName_def has_def)
  moreover have "\<not> inComponentClass ext h root [root]"
    using assms by (simp add: inComponentClass_def split: option.splits)
  moreover have "xs = [] \<and> f = root" if "[root] = xs @ f # ys" for xs f ys
    using that by (cases xs) auto
  ultimately show ?thesis
    unfolding tracked_def
    by (auto simp: contained_def reachableDuringSSRPartial_def)
qed

lemma tracked_at:
  assumes ft: "follows_tracker ext h L"
    and d: "distinct (nodes_list (Tree root ts))"
    and p: "type (h root) = ''Program''"
    and o: "\<forall>r \<in> set (nodes_list (Tree root ts)). type (h r) = ''Program'' \<longrightarrow> r = root"
    and s: "traverse (Tree root ts) = pre @ Enter n # post"
    and t: "type (h n) \<noteq> ''Program''"
    and r: "run L sc [] pre (reachableDuringSSRPartial, out0) = Inr (st, out)"
  shows "tracked ext h root (ancestors_at [] pre) st"
proof -
  from s t p obtain pre' where pre: "pre = Enter root # pre'"
    by (cases pre) auto
  have "nested [] (pre @ Enter n # post)"
    using nested_traverse[OF d, of "[]"] unfolding s by simp
  with pre have n: "nested [root] pre'" by (simp add: nested_append)
  have e: "\<forall>r. Enter r \<in> set pre' \<longrightarrow> type (h r) = ''Program'' \<longrightarrow> r = root"
  proof (intro allI impI)
    fix r assume "Enter r \<in> set pre'" "type (h r) = ''Program''"
    with s pre have "Enter r \<in> set (traverse (Tree root ts))" by simp
    from Enter_traverse[OF this] o \<open>type (h r) = ''Program''\<close> show "r = root" by blast
  qed
  from r pre obtain s1 o1 where
    s1: "L \<lparr>getAncestors = [], getScope = sc root\<rparr> (Enter root) (reachableDuringSSRPartial, out0)
          = Inr (s1, o1)"
    and r1: "run L sc [root] pre' (s1, o1) = Inr (st, out)"
    by (auto split: sum.splits)
  from follows_trackerD[OF ft s1] Program_first[of h root ext reachableDuringSSRPartial] p
  have "s1 = reachableDuringSSRPartial\<lparr>moduleInfo := Some (analyze ext root)\<rparr>" by simp
  with p tracked_start[of h root ext] have "tracked ext h root [root] s1" by simp
  from run_tracked[OF ft n e this r1] pre show ?thesis by simp
qed

lemma tracked_not_skipped:
  assumes "tracked ext h root anc st" and "\<not> insideGuard ext h anc"
  shows "\<not> isInsideSkippedBlock st"
proof
  assume "isInsideSkippedBlock st"
  then obtain g where g: "skippedBlockThatWeAreIn st = Some g"
    by (auto simp: isInsideSkippedBlock_def)
  from assms(1) have c: "contained h (set anc) st"
    and e: "\<forall>g. skippedBlockThatWeAreIn st = Some g \<longrightarrow> isSSREscape ext g"
    unfolding tracked_def by blast+
  from containedD(3)[OF c g] e g have "g \<in> set anc" "type (h g) = ''IfStatement''"
    "isSSREscape ext g" by blast+
  with assms(2) show False by (auto simp: insideGuard_def list_ex_iff)
qed

lemma tracked_function:
  assumes "tracked ext h root anc st" and "list_ex (reachableFunction ext h root) anc"
  shows "isInsideReachableFunction st"
proof -
  from assms(2) obtain f where "f \<in> set anc" "reachableFunction ext h root f"
    by (auto simp: list_ex_iff)
  then obtain xs ys where "anc = xs @ f # ys" by (auto dest: split_list)
  with assms(1) \<open>reachableFunction ext h root f\<close> show ?thesis
    unfolding tracked_def isInsideReachableFunction_def by blast
qed

lemma tracked_method:
  assumes ft: "follows_tracker ext h L"
    and d: "distinct (nodes_list (Tree root ts))"
    and p: "type (h root) = ''Program''"
    and o: "\<forall>r \<in> set (nodes_list (Tree root ts)). type (h r) = ''Program'' \<longrightarrow> r = root"
    and s: "traverse (Tree root ts) = a @ Enter m # d' @ Enter n # post"
    and m: "reachableMethod ext h root m"
    and c: "inComponentClass ext h root (ancestors_at [] a)"
    and l: "\<not> list_ex (leavesMethod h) d'"
    and r: "run L sc [] (a @ Enter m # d') (reachableDuringSSRPartial, out0) = Inr (st, out)"
    and t: "tracked ext h root (ancestors_at [] (a @ Enter m # d')) st"
  shows "isInsideReachableMethod st"
proof -
  from m obtain k where tm: "type (h m) = ''MethodDefinition''" and k: "key (h m) = Some k"
    "type (h k) = ''Identifier''" "has (methodsReachableDuringSSR (analyze ext root)) (name (h k))"
    by (auto simp: reachableMethod_def split: option.splits)
  from r obtain sa oa where
    ra: "run L sc [] a (reachableDuringSSRPartial, out0) = Inr (sa, oa)"
    and rm: "run L sc (ancestors_at [] a) (Enter m # d') (sa, oa) = Inr (st, out)"
    by (auto simp: run_append split: sum.splits)
  from tm have "type (h m) \<noteq> ''Program''" by simp
  from tracked_at[of ext h L root ts a m "d' @ Enter n # post" sc out0 sa oa,
      OF ft d p o _ this ra] s
  have ta: "tracked ext h root (ancestors_at [] a) sa" by simp
  then have mi: "moduleInfo sa = Some (analyze ext root)" and "insideLWC sa"
    using c unfolding tracked_def by blast+
  from rm obtain sm om where
    sm: "L \<lparr>getAncestors = ancestors_at [] a, getScope = sc m\<rparr> (Enter m) (sa, oa) = Inr (sm, om)"
    and rd: "run L sc (ancestors_at [] a @ [m]) d' (sm, om) = Inr (st, out)"
    by (auto split: sum.splits)
  from follows_trackerD[OF ft sm] tm have "MethodDefinition h sa m = Inr sm"
    by (simp add: withinLWCVisitors.simps)
  from MethodDefinition_recorded[OF this \<open>insideLWC sa\<close> mi k]
  have "reachableMethodThatWeAreIn sm \<noteq> None" by simp
  from run_method_kept[OF ft l this rd]
  have 1: "reachableMethodThatWeAreIn st \<noteq> None" .
  have "nested [] (a @ Enter m # d' @ Enter n # post)"
    using nested_traverse[OF d, of "[]"] unfolding s by simp
  then have "nested (ancestors_at [] a @ [m]) d'"
    by (simp add: nested_append)
  moreover from l tm have "Exit m \<notin> set d'" by (auto simp: list_ex_iff)
  ultimately obtain ys where "ancestors_at (ancestors_at [] a @ [m]) d' = ancestors_at [] a @ m # ys"
    using stack_kept[of "ancestors_at [] a" m "[]" d'] by auto
  then have "ancestors_at [] (a @ Enter m # d') = ancestors_at [] a @ m # ys"
    by (simp add: ancestors_at_append)
  with c have "inComponentClass ext h root (ancestors_at [] (a @ Enter m # d'))"
    by (auto simp: inComponentClass_def split: option.splits)
  with t have 2: "insideLWC st" unfolding tracked_def by blast
  from 1 2 show ?thesis by (simp add: isInsideReachableMethod_def)
qed

lemma position_gate:
  assumes ft: "follows_tracker ext h L"
    and d: "distinct (nodes_list (Tree root ts))"
    and p: "type (h root) = ''Program''"
    and o: "\<forall>r \<in> set (nodes_list (Tree root ts)). type (h r) = ''Program'' \<longrightarrow> r = root"
    and s: "traverse (Tree root ts) = pre @ Enter n # post"
    and t: "type (h n) \<noteq> ''Program''"
    and r: "run L sc [] pre (reachableDuringSSRPartial, out0) = Inr (st, out)"
    and pos: "reachablePosition ext h root pre a m d'"
    and g: "\<not> insideGuard ext h (ancestors_at [] pre)"
  shows "(isInsideReachableFunction st \<or> isInsideReachableMethod st
          \<or> inModuleScope h n \<lparr>getAncestors = ancestors_at [] pre, getScope = sc n\<rparr>)
       \<and> \<not> isInsideSkippedBlock st"
proof -
  from tracked_at[OF ft d p o s t r]
  have tr: "tracked ext h root (ancestors_at [] pre) st" .
  from pos consider (atModule) "noDisqualifier h (ancestors_at [] pre)"
    | (inFunction) "list_ex (reachableFunction ext h root) (ancestors_at [] pre)"
    | (inMethod) "pre = a @ Enter m # d'" "reachableMethod ext h root m"
        "inComponentClass ext h root (ancestors_at [] a)" "\<not> list_ex (leavesMethod h) d'"
    unfolding reachablePosition_def by blast
  then have "isInsideReachableFunction st \<or> isInsideReachableMethod st
          \<or> inModuleScope h n \<lparr>getAncestors = ancestors_at [] pre, getScope = sc n\<rparr>"
  proof cases
    case atModule
    then show ?thesis by (simp add: inModuleScope_def)
  next
    case inFunction
    from tracked_function[OF tr this] show ?thesis by simp
  next
    case inMethod
    from s inMethod(1) have s': "traverse (Tree root ts) = a @ Enter m # d' @ Enter n # post"
      by simp
    from tracked_method[OF ft d p o s' inMethod(2,3,4)] r tr inMethod(1)
    show ?thesis by simp
  qed
  with tracked_not_skipped[OF tr g] show ?thesis by simp
qed

lemma noPropertyAccessDuringSSR_tracker_step:
  assumes "noPropertyAccessDuringSSR ext names h ctx ev (st, out) = Inr (st', out')"
  shows "withinLWCVisitors ext h ev st = Inr st'"
proof (cases ev)
  case (Enter n)
  show ?thesis
  proof (cases "type (h n) = ''MemberExpression''")
    case True
    with assms Enter have "st' = st" by (auto simp: emit_def split: sum.splits)
    with True Enter show ?thesis by (simp add: withinLWCVisitors.simps)
  next
    case False
    with assms Enter show ?thesis by (auto simp: track_def split: sum.splits)
  qed
next
  case (Exit n)
  with assms show ?thesis by (auto simp: track_def split: sum.splits)
qed

lemma noPropertyAccessDuringSSR_tracker:
  "follows_tracker ext h (noPropertyAccessDuringSSR ext names h)"
  unfolding follows_tracker_def by (blast intro: noPropertyAccessDuringSSR_tracker_step)

lemma noNodeEnvInSSR_tracker_step:
  assumes "noNodeEnvInSSR ext h ctx ev (st, out) = Inr (st', out')"
  shows "withinLWCVisitors ext h ev st = Inr st'"
proof (cases ev)
  case (Enter n)
  show ?thesis
  proof (cases "type (h n) = ''MemberExpression''")
    case True
    with assms Enter have "st' = st" by (auto simp: emit_def split: sum.splits)
    with True Enter show ?thesis by (simp add: withinLWCVisitors.simps)
  next
    case False
    with assms Enter show ?thesis by (auto simp: track_def split: sum.splits)
  qed
next
  case (Exit n)
  with assms show ?thesis by (auto simp: track_def split: sum.splits)
qed

lemma noNodeEnvInSSR_tracker: "follows_tracker ext h (noNodeEnvInSSR ext h)"
  unfolding follows_tracker_def by (blast intro: noNodeEnvInSSR_tracker_step)

lemma noPropertyAccessDuringSSR_traverse_total:
  assumes "estree_ok h" and "type (h root) = ''Program''"
  shows "\<exists>s. run (noPropertyAccessDuringSSR ext names h) scopeOf [] (traverse (Tree root ts))
                 (reachableDuringSSRPartial, []) = Inr s"
proof -
  let ?s1 = "reachableDuringSSRPartial\<lparr>moduleInfo := Some (analyze ext root)\<rparr>"
  have m: "moduleInfo ?s1 \<noteq> None" by simp
  have t: "type (h root) \<noteq> ''MemberExpression''" using assms(2) by simp
  let ?evs = "concat (map traverse ts) @ [Exit root]"
  from run_total[of "noPropertyAccessDuringSSR ext names h" ?s1 scopeOf "[root]" ?evs "[]"]
    noPropertyAccessDuringSSR_step[OF assms(1)] m
  obtain s where "run (noPropertyAccessDuringSSR ext names h) scopeOf [root] ?evs (?s1, []) = Inr s"
    by blast
  with t assms(2) Program_first[of h root ext reachableDuringSSRPartial]
  show ?thesis by (simp add: track_def)
qed

lemma noNodeEnvInSSR_traverse_total:
  assumes "estree_ok h" and "type (h root) = ''Program''"
  shows "\<exists>s. run (noNodeEnvInSSR ext h) scopeOf [] (traverse (Tree root ts))
                 (reachableDuringSSRPartial, []) = Inr s"
proof -
  let ?s1 = "reachableDuringSSRPartial\<lparr>moduleInfo := Some (analyze ext root)\<rparr>"
  have m: "moduleInfo ?s1 \<noteq> None" by simp
  have t: "type (h root) \<noteq> ''MemberExpression''" using assms(2) by simp
  let ?evs = "concat (map traverse ts) @ [Exit root]"
  from run_total[of "noNodeEnvInSSR ext h" ?s1 scopeOf "[root]" ?evs "[]"]
    noNodeEnvInSSR_step[OF assms(1)] m
  obtain s where "run (noNodeEnvInSSR ext h) scopeOf [root] ?evs (?s1, []) = Inr s"
    by blast
  with t assms(2) Program_first[of h root ext reachableDuringSSRPartial]
  show ?thesis by (simp add: track_def)
qed

section \<open>Rule 4.2: bare identifiers, along a traversal\<close>

text \<open>
  Claim C3, amended. Take the traversal of a module from its root, up to an identifier
  whose parent is not a member access (so it is neither the object nor the property of
  one) and whose name is in the forbidden set. Let the identifier lie at module scope (no
  function declaration, function expression or arrow function among its ancestors), or
  have among its ancestors a function whose name is reachable, or lie in a reachable method
  of the component class with no method definition left between entering that method and
  reaching the identifier; and let no recognized escape guard be among its ancestors. Then the traversal reaches the
  identifier without raising, and the visit adds exactly one violation of the first message
  kind, carrying the name, when the identifier resolves to the global, and nothing when it
  resolves to a local declaration.
\<close>

theorem bare_identifier_reported:
  assumes "distinct (nodes_list (Tree root ts))"
    and "estree_ok h" and "type (h root) = ''Program''"
    and "\<forall>r \<in> set (nodes_list (Tree root ts)). type (h r) = ''Program'' \<longrightarrow> r = root"
    and "traverse (Tree root ts) = pre @ Enter n # post"
    and "type (h n) = ''Identifier''"
    and "parent (h n) = Some p" and "type (h p) \<noteq> ''MemberExpression''"
    and "name (h n) = Some x" and "x \<in> forbiddenGlobalNames"
    and "reachablePosition ext h root pre a m d"
    and "\<not> insideGuard ext h (ancestors_at [] pre)"
  shows "\<exists>st out.
      run (noReferenceDuringSSR ext forbiddenGlobalNames messageIds h) scopeOf [] pre
        (reachableDuringSSRPartial, []) = Inr (st, out)
    \<and> run (noReferenceDuringSSR ext forbiddenGlobalNames messageIds h) scopeOf []
        (pre @ [Enter n]) (reachableDuringSSRPartial, [])
      = Inr (st, out @
          (if isGlobalIdentifier ext (Some n) (scopeOf n)
           then [\<lparr>messageId = at messageIds 0, node = n, data = [(''identifier'', Some x)]\<rparr>]
           else []))"
proof -
  let ?L = "noReferenceDuringSSR ext forbiddenGlobalNames messageIds h"
  from noReferenceDuringSSR_traverse_total[OF assms(2,3), of ext forbiddenGlobalNames messageIds
      scopeOf ts]
  obtain s where "run ?L scopeOf [] (pre @ Enter n # post) (reachableDuringSSRPartial, []) = Inr s"
    unfolding assms(5) by blast
  then obtain st out where
    r: "run ?L scopeOf [] pre (reachableDuringSSRPartial, []) = Inr (st, out)"
    by (auto simp: run_append split: sum.splits)
  from assms(6) have t: "type (h n) \<noteq> ''Program''" by simp
  let ?ctx = "\<lparr>getAncestors = ancestors_at [] pre, getScope = scopeOf n\<rparr>"
  from position_gate[OF noReferenceDuringSSR_tracker assms(1,3,4,5) t r assms(11,12)]
  have g: "isInsideReachableFunction st \<or> isInsideReachableMethod st \<or> inModuleScope h n ?ctx"
    "\<not> isInsideSkippedBlock st" by blast+
  from bare_identifier_step[of h n p x forbiddenGlobalNames st ?ctx ext messageIds out,
      OF assms(6,7,8,9,10) g]
  have "?L ?ctx (Enter n) (st, out) = Inr (st, out @
          (if isGlobalIdentifier ext (Some n) (scopeOf n)
           then [\<lparr>messageId = at messageIds 0, node = n, data = [(''identifier'', Some x)]\<rparr>]
           else []))" by simp
  with r show ?thesis by (simp add: run_append)
qed

theorem bare_identifier_reported_witness:
  "\<exists>st out.
      run (noReferenceDuringSSR (method_ext True) {''document'', ''window''} [''A'', ''B'']
             (method_heap (call ''doSomethingWith'' ''window''))) oneScope []
        [Enter 0, Enter 1, Enter 2, Enter 3, Enter 4, Exit 4, Enter 5, Enter 6, Enter 7,
         Enter 8, Enter 9, Exit 9]
        (reachableDuringSSRPartial, []) = Inr (st, out)
    \<and> run (noReferenceDuringSSR (method_ext True) {''document'', ''window''} [''A'', ''B'']
             (method_heap (call ''doSomethingWith'' ''window''))) oneScope []
        ([Enter 0, Enter 1, Enter 2, Enter 3, Enter 4, Exit 4, Enter 5, Enter 6, Enter 7,
          Enter 8, Enter 9, Exit 9] @ [Enter 10])
        (reachableDuringSSRPartial, [])
      = Inr (st, out @ [\<lparr>messageId = Some ''A'', node = 10,
                          data = [(''identifier'', Some ''window'')]\<rparr>])"
proof -
  let ?h = "method_heap (call ''doSomethingWith'' ''window'')"
  let ?ts = "[Tree 1 [Tree 2 [Tree 3 [Tree 4 [], Tree 5 [Tree 6 [Tree 7
               [Tree 8 [Tree 9 [], Tree 10 []]]]]]]]]"
  let ?pre = "[Enter 0, Enter 1, Enter 2, Enter 3, Enter 4, Exit 4, Enter 5, Enter 6, Enter 7,
         Enter 8, Enter 9, Exit 9]"
  have 1: "distinct (nodes_list (Tree 0 ?ts))" by simp
  have 2: "estree_ok ?h"
    unfolding method_heap_def
    by (rule estree_ok_heap_of) (simp add: call_def shape_ok_def nd_def ident_def)
  have 3: "type (?h 0) = ''Program''" by (simp add: heaps)
  have 4: "\<forall>r \<in> set (nodes_list (Tree 0 ?ts)). type (?h r) = ''Program'' \<longrightarrow> r = 0"
    by (simp add: heaps)
  have 5: "traverse (Tree 0 ?ts) = ?pre @ Enter 10 # [Exit 10, Exit 8, Exit 7, Exit 6, Exit 5,
      Exit 3, Exit 2, Exit 1, Exit 0]" by simp
  have 6: "type (?h 10) = ''Identifier''" "parent (?h 10) = Some 8"
    "type (?h 8) \<noteq> ''MemberExpression''" "name (?h 10) = Some ''window''"
    "''window'' \<in> {''document'', ''window''}" by (simp_all add: heaps)
  have 7: "reachablePosition (method_ext True) ?h 0 ?pre [Enter 0, Enter 1, Enter 2] 3
      [Enter 4, Exit 4, Enter 5, Enter 6, Enter 7, Enter 8, Enter 9, Exit 9]"
    by (simp add: reachablePosition_def reachableMethod_def inComponentClass_def heaps js)
  have 8: "\<not> insideGuard (method_ext True) ?h (ancestors_at [] ?pre)"
    by (simp add: insideGuard_def heaps)
  from bare_identifier_reported[OF 1 2 3 4 5 6 7 8, of "[''A'', ''B'']" oneScope]
  show ?thesis by (simp add: heaps)
qed

section \<open>The other reports, along a traversal\<close>

text \<open>
  Under the same conditions on the place of the node, the chained access through
  \<^verbatim>\<open>globalThis\<close>, the access \<^verbatim>\<open>process.env.NODE_ENV\<close> and, in a reachable method, the access
  to a forbidden property of \<^verbatim>\<open>this\<close> are reported by the traversal.
\<close>

lemma globalThis_chain_reported:
  assumes "distinct (nodes_list (Tree root ts))"
    and "estree_ok h" and "type (h root) = ''Program''"
    and "\<forall>r \<in> set (nodes_list (Tree root ts)). type (h r) = ''Program'' \<longrightarrow> r = root"
    and "traverse (Tree root ts) = pre @ Enter n # post"
    and "type (h n) = ''MemberExpression''"
    and "parent (h n) = Some p" and "type (h p) = ''MemberExpression''"
    and "property (h p) = Some q"
    and "object (h n) = Some ob" and "type (h ob) = ''Identifier''"
    and "name (h ob) = Some ''globalThis''"
    and "property (h n) = Some pr" and "type (h pr) = ''Identifier''"
    and "name (h pr) = Some x" and "x \<in> forbiddenGlobalNames"
    and "isGlobalIdentifier ext (Some ob) (scopeOf n)"
    and "reachablePosition ext h root pre a m d"
    and "\<not> insideGuard ext h (ancestors_at [] pre)"
  shows "\<exists>st out.
      run (noReferenceDuringSSR ext forbiddenGlobalNames messageIds h) scopeOf [] pre
        (reachableDuringSSRPartial, []) = Inr (st, out)
    \<and> run (noReferenceDuringSSR ext forbiddenGlobalNames messageIds h) scopeOf []
        (pre @ [Enter n]) (reachableDuringSSRPartial, [])
      = Inr (st, out @
          (if optional (h p) = Some True then []
           else [\<lparr>messageId = at messageIds 1, node = n,
                   data = [(''identifier'', Some x), (''property'', name (h q))]\<rparr>]))"
proof -
  let ?L = "noReferenceDuringSSR ext forbiddenGlobalNames messageIds h"
  from noReferenceDuringSSR_traverse_total[OF assms(2,3), of ext forbiddenGlobalNames messageIds
      scopeOf ts]
  obtain s where "run ?L scopeOf [] (pre @ Enter n # post) (reachableDuringSSRPartial, []) = Inr s"
    unfolding assms(5) by blast
  then obtain st out where
    r: "run ?L scopeOf [] pre (reachableDuringSSRPartial, []) = Inr (st, out)"
    by (auto simp: run_append split: sum.splits)
  from assms(6) have t: "type (h n) \<noteq> ''Program''" by simp
  let ?ctx = "\<lparr>getAncestors = ancestors_at [] pre, getScope = scopeOf n\<rparr>"
  from position_gate[OF noReferenceDuringSSR_tracker assms(1,3,4,5) t r assms(18,19)]
  have g: "isInsideReachableFunction st \<or> isInsideReachableMethod st \<or> inModuleScope h n ?ctx"
    "\<not> isInsideSkippedBlock st" by blast+
  from assms(17) have "isGlobalIdentifier ext (Some ob) (getScope ?ctx)" by simp
  from globalThis_chain_step[of h n p q ob pr x forbiddenGlobalNames ext ?ctx st messageIds out,
      OF assms(6-16) this g]
  have "?L ?ctx (Enter n) (st, out) = Inr (st, out @
          (if optional (h p) = Some True then []
           else [\<lparr>messageId = at messageIds 1, node = n,
                   data = [(''identifier'', Some x), (''property'', name (h q))]\<rparr>]))" .
  with r show ?thesis by (simp add: run_append)
qed

lemma node_env_reported_at:
  assumes "distinct (nodes_list (Tree root ts))"
    and "estree_ok h" and "type (h root) = ''Program''"
    and "\<forall>r \<in> set (nodes_list (Tree root ts)). type (h r) = ''Program'' \<longrightarrow> r = root"
    and "traverse (Tree root ts) = pre @ Enter n # post"
    and "type (h n) = ''MemberExpression''"
    and "property (h n) = Some pr" and "type (h pr) = ''Identifier''"
    and "name (h pr) = Some ''NODE_ENV''"
    and "object (h n) = Some ob" and "type (h ob) = ''MemberExpression''"
    and "property (h ob) = Some q" and "type (h q) = ''Identifier''"
    and "name (h q) = Some ''env''"
    and "object (h ob) = Some x" and "type (h x) = ''Identifier''" and "name (h x) = Some c"
    and "reachablePosition ext h root pre a m d"
    and "\<not> insideGuard ext h (ancestors_at [] pre)"
  shows "\<exists>st out.
      run (noNodeEnvInSSR ext h) scopeOf [] pre (reachableDuringSSRPartial, []) = Inr (st, out)
    \<and> run (noNodeEnvInSSR ext h) scopeOf [] (pre @ [Enter n]) (reachableDuringSSRPartial, [])
      = Inr (st, out @
          (if c = ''process''
           then [\<lparr>messageId = Some ''nodeEnvFound'', node = n,
                   data = [(''identifier'', Some ''NODE_ENV'')]\<rparr>]
           else []))"
proof -
  let ?L = "noNodeEnvInSSR ext h"
  from noNodeEnvInSSR_traverse_total[OF assms(2,3), of ext scopeOf ts]
  obtain s where "run ?L scopeOf [] (pre @ Enter n # post) (reachableDuringSSRPartial, []) = Inr s"
    unfolding assms(5) by blast
  then obtain st out where
    r: "run ?L scopeOf [] pre (reachableDuringSSRPartial, []) = Inr (st, out)"
    by (auto simp: run_append split: sum.splits)
  from assms(6) have t: "type (h n) \<noteq> ''Program''" by simp
  let ?ctx = "\<lparr>getAncestors = ancestors_at [] pre, getScope = scopeOf n\<rparr>"
  from position_gate[OF noNodeEnvInSSR_tracker assms(1,3,4,5) t r assms(18,19)]
  have g: "isInsideReachableFunction st \<or> isInsideReachableMethod st \<or> inModuleScope h n ?ctx"
    "\<not> isInsideSkippedBlock st" by blast+
  from node_env_step[of h n pr ob q x c st ?ctx ext out, OF assms(6-17) g]
  have "?L ?ctx (Enter n) (st, out) = Inr (st, out @
          (if c = ''process''
           then [\<lparr>messageId = Some ''nodeEnvFound'', node = n,
                   data = [(''identifier'', Some ''NODE_ENV'')]\<rparr>]
           else []))" .
  with r show ?thesis by (simp add: run_append)
qed

lemma this_property_reported_at:
  assumes "distinct (nodes_list (Tree root ts))"
    and "estree_ok h" and "type (h root) = ''Program''"
    and "\<forall>r \<in> set (nodes_list (Tree root ts)). type (h r) = ''Program'' \<longrightarrow> r = root"
    and "traverse (Tree root ts) = a @ Enter m # d @ Enter n # post"
    and "type (h n) = ''MemberExpression''"
    and "object (h n) = Some ob" and "type (h ob) = ''ThisExpression''"
    and "property (h n) = Some pr" and "type (h pr) = ''Identifier''"
    and "includes' forbiddenPropertyNames (name (h pr))"
    and "reachableMethod ext h root m"
    and "inComponentClass ext h root (ancestors_at [] a)"
    and "\<not> list_ex (leavesMethod h) d"
    and "\<not> insideGuard ext h (ancestors_at [] (a @ Enter m # d))"
  shows "\<exists>st out.
      run (noPropertyAccessDuringSSR ext forbiddenPropertyNames h) scopeOf [] (a @ Enter m # d)
        (reachableDuringSSRPartial, []) = Inr (st, out)
    \<and> run (noPropertyAccessDuringSSR ext forbiddenPropertyNames h) scopeOf []
        ((a @ Enter m # d) @ [Enter n]) (reachableDuringSSRPartial, [])
      = Inr (st, out @ [n])"
proof -
  let ?L = "noPropertyAccessDuringSSR ext forbiddenPropertyNames h"
  let ?pre = "a @ Enter m # d"
  have s: "traverse (Tree root ts) = ?pre @ Enter n # post" using assms(5) by simp
  from noPropertyAccessDuringSSR_traverse_total[OF assms(2,3), of ext forbiddenPropertyNames
      scopeOf ts]
  obtain s0 where "run ?L scopeOf [] (?pre @ Enter n # post) (reachableDuringSSRPartial, []) = Inr s0"
    unfolding s by blast
  then obtain st out where
    r: "run ?L scopeOf [] ?pre (reachableDuringSSRPartial, []) = Inr (st, out)"
    by (auto simp: run_append split: sum.splits)
  from assms(6) have t: "type (h n) \<noteq> ''Program''" by simp
  from tracked_at[OF noPropertyAccessDuringSSR_tracker assms(1,3,4) s t r]
  have tr: "tracked ext h root (ancestors_at [] ?pre) st" .
  from tracked_method[OF noPropertyAccessDuringSSR_tracker assms(1,3,4,5,12,13,14) r tr]
  have 1: "isInsideReachableMethod st" .
  from tracked_not_skipped[OF tr assms(15)] have 2: "\<not> isInsideSkippedBlock st" .
  let ?ctx = "\<lparr>getAncestors = ancestors_at [] ?pre, getScope = scopeOf n\<rparr>"
  from this_property_step[of h n ob pr ext forbiddenPropertyNames ?ctx st out, OF assms(6,7,9)]
    1 2 assms(8,10,11)
  have e: "?L ?ctx (Enter n) (st, out) = Inr (st, out @ [n])" by simp
  have "run ?L scopeOf [] (?pre @ [Enter n]) (reachableDuringSSRPartial, []) =
      run ?L scopeOf (ancestors_at [] ?pre) [Enter n] (st, out)"
    unfolding run_append[of ?L scopeOf "[]" ?pre "[Enter n]"] r by simp
  also have "\<dots> = Inr (st, out @ [n])" using e by simp
  finally show ?thesis using r by blast
qed

end
